theory Spec2Isabelle
  imports Main "HOL-Library.Word" "HOL-Library.Multiset"
begin

section \<open>A shallow embedding of \<open>ThreadPool.hpp\<close>\<close>

text \<open>
  The pool is a class with five members (\<open>m_done\<close>, \<open>m_queue\<close>, \<open>m_threads\<close>,
  \<open>m_condition\<close>, \<open>m_mutex\<close>), a constructor, \<open>submit\<close>, a destructor and four private
  functions (\<open>wait_for_work\<close>, \<open>try_pop\<close>, \<open>add_task\<close>, \<open>destroy\<close>).  The model is an
  interleaving semantics: one global state, and one atomic step per critical section of
  \<open>m_mutex\<close> and per access to the atomic \<open>m_done\<close> outside it.  \<open>destroy\<close> writes
  \<open>m_done\<close> and notifies without the mutex, so the one critical section it can cut in two,
  the wait of \<open>try_pop\<close> between a false predicate and the sleep, is two steps.  A user
  callable is a total function that returns a value or throws.
\<close>

subsection \<open>Exceptions, callables and shared states of futures\<close>

text \<open>
  A thrown object either derives from \<open>std::exception\<close> (it has a \<open>what()\<close> message) or
  it is anything else (\<open>throw 42\<close>).
\<close>

datatype exn = StdException string | NonStdException

text \<open>
  \<^verbatim>\<open>
  class ThreadPoolException : public std::exception {
      ThreadPoolException(const char* msg) : m_msg(msg) {}
      const char* what() const noexcept { return m_msg; }
  \<close>
\<close>

datatype error = ThreadPoolException string

fun what :: "error \<Rightarrow> string" where
  "what (ThreadPoolException m_msg) = m_msg"

definition constructor_failed :: string where
  "constructor_failed = ''Failed to allocate or create threads in ThreadPool constructor''"

definition adding_task_failed :: string where
  "adding_task_failed = ''ThreadPool::submit caught exception while enqueueing task''"

text \<open>What one invocation of a callable does.\<close>

datatype 'r outcome = Returns 'r | Throws exn

text \<open>
  The shared state behind a \<open>std::future\<close>: not ready, or ready with a value or with a
  stored exception; \<open>future::get\<close> returns the value or rethrows the exception.
\<close>

datatype 'r shared_state = Pending | Value 'r | Exception exn

fun deliver :: "'r outcome \<Rightarrow> 'r shared_state" where
  "deliver (Returns v) = Value v"
| "deliver (Throws e) = Exception e"

text \<open>
  \<open>std::packaged_task<Result()>\<close>: the stored callable and the address of its shared
  state.  A \<open>std::future\<close> is the address of a shared state (the Result Handle of the
  specification).
\<close>

record 'r packaged_task =
  stored_task :: "unit \<Rightarrow> 'r outcome"
  shared :: nat

type_synonym future = nat

text \<open>
  \<^verbatim>\<open>
  template <class Result> class Task : public TaskBase {
      ...
      std::packaged_task<Result()> m_task;
  };
  \<close>
  The queue holds \<open>std::unique_ptr<TaskBase>\<close>; the type parameter \<open>'r\<close> stands for the
  universe of all result types.
\<close>

record 'r Task =
  m_task :: "'r packaged_task"

subsection \<open>The state\<close>

text \<open>
  Where a worker thread is in \<open>wait_for_work\<close>: at the loop guard \<open>while (!m_done)\<close>;
  inside \<open>try_pop\<close>, awake, about to take the mutex and evaluate the wait predicate;
  holding the mutex, having found the predicate false, about to sleep; asleep in
  \<open>m_condition.wait\<close>, the mutex released; holding the task it popped, about to call
  \<open>run_me\<close>; in the handler, about to take the mutex and print; or returned from
  \<open>wait_for_work\<close>.
\<close>

datatype 'r pc =
  At_guard | In_try_pop | About_to_wait | Waiting | Has_task "'r Task" | Caught | Returned

text \<open>A \<open>std::thread\<close> object: the thread of execution and whether it is joinable.\<close>

record 'r thread =
  pc :: "'r pc"
  joinable :: bool

text \<open>
  The thread that owns the pool object: the object is alive, or its destructor is
  between the statements of \<open>destroy\<close>, or it has completed.
\<close>

datatype owner_pc = Alive | Notifying | Joining nat | Destroyed

text \<open>The observable actions, recorded in a ghost trace.\<close>

datatype 'r action =
    Enqueue "'r Task" | Dequeue "'r Task" | Run_me future
  | Set_done | Notify_one | Notify_all | Join nat

text \<open>
  The members of the class (\<open>m_done\<close>, \<open>m_queue\<close>, \<open>m_threads\<close>; the mutex is held
  between two steps by a thread that is \<open>About_to_wait\<close> only, the threads blocked on the
  condition variable are those that are \<open>Waiting\<close>), and
  the rest of the world: the heap of shared states, the standard output, the owner,
  whether \<open>std::terminate\<close> has been called, and the ghost trace.
\<close>

record 'r state =
  m_done :: bool
  m_queue :: "'r Task list"
  m_threads :: "'r thread list"
  heap :: "'r shared_state list"
  stdout :: "string list"
  owner :: owner_pc
  terminated :: bool
  history :: "'r action list"

subsection \<open>\<open>details::Task\<close> and \<open>details::make_task\<close>\<close>

text \<open>
  What the environment makes fail in one call of \<open>submit\<close>: nothing; the allocation of
  the task or the copy of the callable and its arguments (\<open>make_task\<close>); the lock of
  the mutex (\<open>std::system_error\<close>); the allocation of the list node in
  \<open>m_queue.push\<close> (\<open>std::bad_alloc\<close>).
\<close>

datatype fault = No_fault | Fault_make_task | Fault_lock | Fault_push

text \<open>
  \<^verbatim>\<open>
  Task(Func&& function, Args&&... arguments) :
      m_task([f = std::forward<Func>(function),
              args = std::tuple(std::forward<Args>(arguments)...)] ()
              { return std::apply(f, args); })
  auto make_task(Func&& func, Args&&... args) {
      return std::make_unique<Task<Result>>(std::forward<Func>(func), std::forward<Args>(args)...);
  }
  \<close>
  The closure holds copies of the callable and of a tuple built from the arguments; the
  packaged task allocates a fresh shared state.  A callable is a function of the list of
  the arguments it is called with, and \<open>std::apply\<close> calls it with the elements of the
  tuple.

  The tuple is built by \<open>std::tuple(...)\<close>, whose type is found by class template argument
  deduction: for a single argument that is a \<open>std::pair\<close> the deduction guide
  \<open>tuple(pair<T1, T2>) -> tuple<T1, T2>\<close> is chosen, and for a single argument that is a
  \<open>std::tuple\<close> the copy deduction candidate, so the tuple stored has the elements of that
  argument; in every other case it has the arguments themselves as its elements.  An
  argument is an object that is neither, or a pair, or a tuple (no argument is a
  \<open>std::allocator_arg_t\<close>).
\<close>

datatype 'v arg = Obj 'v | StdPair "'v arg" "'v arg" | StdTuple "'v arg list"

fun std_tuple :: "'v arg list \<Rightarrow> 'v arg list" where
  "std_tuple [StdPair first second] = [first, second]"
| "std_tuple [StdTuple elements] = elements"
| "std_tuple arguments = arguments"

definition make_task ::
  "fault \<Rightarrow> ('v arg list \<Rightarrow> 'r outcome) \<Rightarrow> 'v arg list \<Rightarrow> 'r state \<Rightarrow>
     exn + ('r Task \<times> 'r state)" where
  "make_task flt func args s =
     (case flt of
        Fault_make_task \<Rightarrow> Inl (StdException ''std::bad_alloc'')
      | _ \<Rightarrow>
          Inr (\<lparr>m_task = \<lparr>stored_task = (\<lambda>_. func (std_tuple args)),
                            shared = length (heap s)\<rparr>\<rparr>,
               s\<lparr>heap := heap s @ [Pending]\<rparr>))"

text \<open>
  \<^verbatim>\<open>auto get_future() { return m_task.get_future(); }\<close>
  It is called once per task, by \<open>submit\<close>, so \<open>future_already_retrieved\<close> is never
  thrown.
\<close>

definition get_future :: "'r Task \<Rightarrow> future" where
  "get_future t = shared (m_task t)"

text \<open>
  \<open>std::packaged_task::operator()\<close>: with a shared state that is not ready, it calls the
  stored callable and stores the value, or the exception the callable throws
  (whatever its type), in the shared state; nothing propagates.  With no shared state, or
  one that is ready already, it throws \<open>std::future_error\<close>.
\<close>

definition invoke :: "'r packaged_task \<Rightarrow> 'r state \<Rightarrow> exn option \<times> 'r state" where
  "invoke p s =
     (if shared p < length (heap s) then
        (case heap s ! shared p of
           Pending \<Rightarrow> (None, s\<lparr>heap := (heap s)[shared p := deliver (stored_task p ())]\<rparr>)
         | _ \<Rightarrow> (Some (StdException ''std::future_error''), s))
      else (Some (StdException ''std::future_error''), s))"

text \<open>\<^verbatim>\<open>void run_me() override { m_task(); }\<close>\<close>

definition run_me :: "'r Task \<Rightarrow> 'r state \<Rightarrow> exn option \<times> 'r state" where
  "run_me t s = invoke (m_task t) (s\<lparr>history := history s @ [Run_me (get_future t)]\<rparr>)"

subsection \<open>The mutex and the condition variable\<close>

fun holds_mutex :: "'r thread \<Rightarrow> bool" where
  "holds_mutex t = (case pc t of About_to_wait \<Rightarrow> True | _ \<Rightarrow> False)"

definition mutex_free :: "'r state \<Rightarrow> bool" where
  "mutex_free s = (\<not> list_ex holds_mutex (m_threads s))"

fun is_waiting :: "'r thread \<Rightarrow> bool" where
  "is_waiting t = (case pc t of Waiting \<Rightarrow> True | _ \<Rightarrow> False)"

fun wake :: "'r thread \<Rightarrow> 'r thread" where
  "wake t = (if is_waiting t then t\<lparr>pc := In_try_pop\<rparr> else t)"

text \<open>
  \<open>notify_one\<close> unblocks one of the waiting threads, here the first; a thread that is not
  yet asleep is not notified.
\<close>

fun notify_one :: "'r thread list \<Rightarrow> 'r thread list" where
  "notify_one [] = []"
| "notify_one (t # ts) = (if is_waiting t then wake t # ts else t # notify_one ts)"

text \<open>\<open>notify_all\<close> unblocks every waiting thread.\<close>

definition notify_all :: "'r thread list \<Rightarrow> 'r thread list" where
  "notify_all ts = map wake ts"

subsection \<open>\<open>try_pop\<close> and \<open>add_task\<close>\<close>

text \<open>
  \<^verbatim>\<open>
  std::optional<task_ptr> try_pop() {
      std::unique_lock<std::mutex> lock(m_mutex);
      m_condition.wait(lock, [&]() { return m_done || !m_queue.empty(); });
      if (m_done)
          return std::nullopt;
      auto ret = std::optional(std::move(m_queue.front()));
      m_queue.pop();
      return ret;
  }
  \<close>
  The function is the body under the lock.  \<open>Blocked\<close>: the wait predicate is false; the
  caller sleeps on the condition variable and evaluates the predicate again when it wakes.
\<close>

datatype 'r popped = Blocked | Popped "'r Task option" "'r state"

definition try_pop :: "'r state \<Rightarrow> 'r popped" where
  "try_pop s =
     (if \<not> (m_done s \<or> m_queue s \<noteq> []) then Blocked
      else if m_done s then Popped None s
      else (case m_queue s of
              [] \<Rightarrow> Blocked
            | front # rest \<Rightarrow>
                Popped (Some front)
                  (s\<lparr>m_queue := rest, history := history s @ [Dequeue front]\<rparr>)))"

text \<open>
  \<^verbatim>\<open>
  void add_task(std::unique_ptr<Task>&& task) {
      std::lock_guard<std::mutex> lock(m_mutex);
      m_queue.push(std::move(task));
      m_condition.notify_one();
  }
  \<close>
  \<open>std::list::push_back\<close> has no effect when it throws.
\<close>

definition add_task :: "fault \<Rightarrow> 'r Task \<Rightarrow> 'r state \<Rightarrow> exn + 'r state" where
  "add_task flt task s =
     (case flt of
        Fault_lock \<Rightarrow> Inl (StdException ''std::system_error'')
      | Fault_push \<Rightarrow> Inl (StdException ''std::bad_alloc'')
      | _ \<Rightarrow>
          Inr (s\<lparr>m_queue := m_queue s @ [task],
                 m_threads := notify_one (m_threads s),
                 history := history s @ [Enqueue task, Notify_one]\<rparr>))"

subsection \<open>\<open>submit\<close>\<close>

text \<open>
  \<^verbatim>\<open>
  auto submit(Func&& func, Args&&... args) {
      try {
          auto task = details::make_task(std::forward<Func>(func), std::forward<Args>(args)...);
          auto task_future = task->get_future();
          add_task(std::move(task));
          return task_future;
      } catch(...) {
          throw ThreadPoolException(adding_task_failed);
      }
  }
  \<close>
  When \<open>add_task\<close> throws, the unwinding destroys \<open>task\<close> and \<open>task_future\<close>; their
  shared state stays behind in the heap of the model, referenced by nothing.
\<close>

definition submit ::
  "fault \<Rightarrow> ('v arg list \<Rightarrow> 'r outcome) \<Rightarrow> 'v arg list \<Rightarrow> 'r state \<Rightarrow>
     (error + future) \<times> 'r state" where
  "submit flt func args s =
     (case make_task flt func args s of
        Inl e \<Rightarrow> (Inl (ThreadPoolException adding_task_failed), s)
      | Inr (task, s1) \<Rightarrow>
          (let task_future = get_future task in
           case add_task flt task s1 of
             Inl e \<Rightarrow> (Inl (ThreadPoolException adding_task_failed), s1)
           | Inr s2 \<Rightarrow> (Inr task_future, s2)))"

subsection \<open>The constructor\<close>

text \<open>
  \<^verbatim>\<open>
  explicit ThreadPool(unsigned num_threads) : m_done(false) {
      try {
          m_threads.reserve(num_threads);
          for (unsigned i = 0; i < num_threads; ++i)
              m_threads.push_back(std::thread(&ThreadPool::wait_for_work, this));
      } catch(...) {
          throw ThreadPoolException(constructor_failed);
      }
  }
  \<close>
  The environment decides whether \<open>reserve\<close> can allocate (\<open>reserve_ok\<close>) and whether the
  \<open>i\<close>-th \<open>std::thread\<close> can be created (\<open>spawn_ok i\<close>).  The loop returns the exception, if
  any, and the threads created so far.
\<close>

definition new_thread :: "'r thread" where
  "new_thread = \<lparr>pc = At_guard, joinable = True\<rparr>"

function spawn_loop ::
  "(nat \<Rightarrow> bool) \<Rightarrow> nat \<Rightarrow> nat \<Rightarrow> 'r thread list \<Rightarrow> exn option \<times> 'r thread list" where
  "spawn_loop spawn_ok i num_threads ts =
     (if i < num_threads then
        (if spawn_ok i then spawn_loop spawn_ok (Suc i) num_threads (ts @ [new_thread])
         else (Some (StdException ''std::system_error''), ts))
      else (None, ts))"
  by pat_completeness auto
termination
  by (relation "measure (\<lambda>(spawn_ok, i, num_threads, ts). num_threads - i)") auto

declare spawn_loop.simps [simp del]

text \<open>
  The result of a construction: the pool; or the exception that reaches the caller; or
  a call of \<open>std::terminate\<close>.
\<close>

datatype 'r construction = Constructed "'r state" | Construction_failed error | Terminate_called

text \<open>
  An exception that leaves the body of a constructor destroys the members of the
  object, not the object (\<open>~ThreadPool\<close> does not run); the destructor of a joinable
  \<open>std::thread\<close> calls \<open>std::terminate\<close>.
\<close>

definition throw_from_constructor :: "error \<Rightarrow> 'r state \<Rightarrow> 'r construction" where
  "throw_from_constructor e s =
     (if list_ex joinable (m_threads s) then Terminate_called else Construction_failed e)"

definition members_initialised :: "'r state" where
  "members_initialised =
     \<lparr>m_done = False, m_queue = [], m_threads = [], heap = [], stdout = [],
      owner = Alive, terminated = False, history = []\<rparr>"

text \<open>\<open>reserve\<close> allocates only for a capacity above the current one, which is 0.\<close>

definition ThreadPool :: "bool \<Rightarrow> (nat \<Rightarrow> bool) \<Rightarrow> 32 word \<Rightarrow> 'r construction" where
  "ThreadPool reserve_ok spawn_ok num_threads =
     (if 0 < unat num_threads \<and> \<not> reserve_ok
      then throw_from_constructor (ThreadPoolException constructor_failed) members_initialised
      else
        (case spawn_loop spawn_ok 0 (unat num_threads) [] of
           (None, ts) \<Rightarrow> Constructed (members_initialised\<lparr>m_threads := ts\<rparr>)
         | (Some e, ts) \<Rightarrow>
             throw_from_constructor (ThreadPoolException constructor_failed)
               (members_initialised\<lparr>m_threads := ts\<rparr>)))"

subsection \<open>\<open>wait_for_work\<close>, one step of a worker thread\<close>

text \<open>
  \<^verbatim>\<open>
  void wait_for_work() {
      while (!m_done) {
          auto task = try_pop();
          if (task) {
              try {
                  task.value()->run_me();
              } catch(std::exception e) {
                  std::lock_guard<std::mutex> lock(m_mutex);
                  fmt::print("Caught exception from ThreadPool task:\n"
                             "exc.what() = {}\n", e.what());
              }
          }
      }
  }
  \<close>
  The handler catches by value: \<open>e\<close> is a copy of the \<open>std::exception\<close> base of the thrown
  object, and \<open>e.what()\<close> is the message of the base class.  An exception of another
  type leaves the thread function, which calls \<open>std::terminate\<close>.

  A step that takes the mutex is enabled when the mutex is free.  In \<open>try_pop\<close>, a thread
  that finds the predicate true goes on in the same step: it holds the mutex, so until it
  tests \<open>m_done\<close> only \<open>m_done\<close> can change, and only to true, and the step taken at the
  moment of that test gives the same result.  A thread that finds the predicate false
  still holds the mutex; \<open>wait\<close> releases it and blocks in one step.  The lock of the
  mutex does not fail in a worker.
\<close>

definition sliced_what :: string where
  "sliced_what = ''std::exception''"

definition diagnostic :: "string \<Rightarrow> string" where
  "diagnostic w =
     ''Caught exception from ThreadPool task:'' @ [CHR 0x0A] @ ''exc.what() = '' @ w @ [CHR 0x0A]"

definition set_pc :: "nat \<Rightarrow> 'r pc \<Rightarrow> 'r state \<Rightarrow> 'r state" where
  "set_pc i p s = s\<lparr>m_threads := (m_threads s)[i := (m_threads s ! i)\<lparr>pc := p\<rparr>]\<rparr>"

definition wait_for_work :: "nat \<Rightarrow> 'r state \<Rightarrow> 'r state option" where
  "wait_for_work i s =
     (if i < length (m_threads s) then
        (case pc (m_threads s ! i) of
           At_guard \<Rightarrow>
             Some (if m_done s then set_pc i Returned s else set_pc i In_try_pop s)
         | In_try_pop \<Rightarrow>
             (if mutex_free s then
                (case try_pop s of
                   Blocked \<Rightarrow> Some (set_pc i About_to_wait s)
                 | Popped None s' \<Rightarrow> Some (set_pc i At_guard s')
                 | Popped (Some task) s' \<Rightarrow> Some (set_pc i (Has_task task) s'))
              else None)
         | About_to_wait \<Rightarrow> Some (set_pc i Waiting s)
         | Waiting \<Rightarrow> None
         | Has_task task \<Rightarrow>
             (case run_me task s of
                (None, s') \<Rightarrow> Some (set_pc i At_guard s')
              | (Some (StdException w), s') \<Rightarrow> Some (set_pc i Caught s')
              | (Some NonStdException, s') \<Rightarrow> Some (s'\<lparr>terminated := True\<rparr>))
         | Caught \<Rightarrow>
             (if mutex_free s then
                Some (set_pc i At_guard (s\<lparr>stdout := stdout s @ [diagnostic sliced_what]\<rparr>))
              else None)
         | Returned \<Rightarrow> None)
      else None)"

text \<open>
  A thread asleep in \<open>m_condition.wait\<close> may wake at any time (the standard allows
  spurious wake-ups); it then takes the mutex and evaluates the wait predicate again.
\<close>

definition spurious_wakeup :: "nat \<Rightarrow> 'r state \<Rightarrow> 'r state option" where
  "spurious_wakeup i s =
     (if i < length (m_threads s) \<and> is_waiting (m_threads s ! i)
      then Some (set_pc i In_try_pop s) else None)"

subsection \<open>\<open>destroy\<close>, one step of the destructor\<close>

text \<open>
  \<^verbatim>\<open>
  ~ThreadPool() { destroy(); }
  void destroy() {
      m_done = true;
      m_condition.notify_all();
      for (auto& thread: m_threads)
          if (thread.joinable())
              thread.join();
  }
  \<close>
  \<open>join\<close> blocks until the thread has returned from its function: the step is not
  enabled before.
\<close>

definition destroy :: "'r state \<Rightarrow> 'r state option" where
  "destroy s =
     (case owner s of
        Alive \<Rightarrow>
          Some (s\<lparr>m_done := True, owner := Notifying, history := history s @ [Set_done]\<rparr>)
      | Notifying \<Rightarrow>
          Some (s\<lparr>m_threads := notify_all (m_threads s), owner := Joining 0,
                  history := history s @ [Notify_all]\<rparr>)
      | Joining i \<Rightarrow>
          (if i < length (m_threads s) then
             (if joinable (m_threads s ! i) then
                (case pc (m_threads s ! i) of
                   Returned \<Rightarrow>
                     Some (s\<lparr>m_threads := (m_threads s)[i := (m_threads s ! i)\<lparr>joinable := False\<rparr>],
                             owner := Joining (Suc i),
                             history := history s @ [Join i]\<rparr>)
                 | _ \<Rightarrow> None)
              else Some (s\<lparr>owner := Joining (Suc i)\<rparr>))
           else Some (s\<lparr>owner := Destroyed\<rparr>))
      | Destroyed \<Rightarrow> None)"

subsection \<open>The system\<close>

text \<open>
  An event is one step of one thread: a caller submits a task (with the fault the
  environment injects), worker \<open>i\<close> takes its next step, worker \<open>i\<close> wakes spuriously, or
  the owner takes the next step of the destructor.  \<open>submit\<close> needs a live pool object,
  and a free mutex to get as far as the push; after \<open>std::terminate\<close> nothing runs.
\<close>

datatype ('a, 'r) event =
  Submit fault "'a arg list \<Rightarrow> 'r outcome" "'a arg list" | Worker nat | Wake nat | Destroy

definition step :: "('a, 'r) event \<Rightarrow> 'r state \<Rightarrow> 'r state option" where
  "step ev s =
     (if terminated s then None
      else
        (case ev of
           Submit flt func args \<Rightarrow>
             (case owner s of
                Alive \<Rightarrow>
                  (if flt = No_fault \<and> \<not> mutex_free s then None
                   else Some (snd (submit flt func args s)))
              | _ \<Rightarrow> None)
         | Worker i \<Rightarrow> wait_for_work i s
         | Wake i \<Rightarrow> spurious_wakeup i s
         | Destroy \<Rightarrow> destroy s))"

fun run :: "('a, 'r) event list \<Rightarrow> 'r state \<Rightarrow> 'r state option" where
  "run [] s = Some s"
| "run (ev # evs) s = (case step ev s of None \<Rightarrow> None | Some s' \<Rightarrow> run evs s')"

text \<open>The tasks put into the queue and taken from it, in the order of the trace.\<close>

fun enqueued :: "'r action list \<Rightarrow> 'r Task list" where
  "enqueued [] = []"
| "enqueued (Enqueue t # as) = t # enqueued as"
| "enqueued (a # as) = enqueued as"

fun dequeued :: "'r action list \<Rightarrow> 'r Task list" where
  "dequeued [] = []"
| "dequeued (Dequeue t # as) = t # dequeued as"
| "dequeued (a # as) = dequeued as"

subsection \<open>\<open>std::future::get\<close>\<close>

text \<open>
  What the holder of a future observes: the shared state is not ready (\<open>get\<close> blocks),
  or \<open>get\<close> returns the stored value, or it rethrows the stored exception.
\<close>

datatype 'r got = Not_ready | Got "'r outcome"

definition future_get :: "'r state \<Rightarrow> future \<Rightarrow> 'r got" where
  "future_get s h =
     (case heap s ! h of
        Pending \<Rightarrow> Not_ready
      | Value v \<Rightarrow> Got (Returns v)
      | Exception e \<Rightarrow> Got (Throws e))"

subsection \<open>Notions used to state the properties\<close>

text \<open>The pool after a construction that succeeded with \<open>n\<close> threads.\<close>

definition constructed :: "nat \<Rightarrow> 'r state" where
  "constructed n = members_initialised\<lparr>m_threads := replicate n new_thread\<rparr>"

text \<open>
  The tasks in flight: those in the queue and those a worker has popped and not run
  yet.  The shared state of a task in flight exists and is not ready, and no two tasks in
  flight share one.
\<close>

fun holding :: "'r thread \<Rightarrow> 'r Task list" where
  "holding th = (case pc th of Has_task t \<Rightarrow> [t] | _ \<Rightarrow> [])"

definition held :: "'r thread list \<Rightarrow> 'r Task list" where
  "held ts = concat (map holding ts)"

definition in_flight :: "'r state \<Rightarrow> 'r Task list" where
  "in_flight s = m_queue s @ held (m_threads s)"

definition pending :: "'r state \<Rightarrow> 'r Task \<Rightarrow> bool" where
  "pending s t \<longleftrightarrow> get_future t < length (heap s) \<and> future_get s (get_future t) = Not_ready"

definition inflight_ok :: "'r state \<Rightarrow> bool" where
  "inflight_ok s \<longleftrightarrow>
     distinct (map get_future (in_flight s)) \<and> list_all (pending s) (in_flight s)"

text \<open>The actions of \<open>destroy\<close> in a trace.\<close>

fun destroy_actions :: "'r action list \<Rightarrow> 'r action list" where
  "destroy_actions [] = []"
| "destroy_actions (Set_done # as) = Set_done # destroy_actions as"
| "destroy_actions (Notify_all # as) = Notify_all # destroy_actions as"
| "destroy_actions (Join i # as) = Join i # destroy_actions as"
| "destroy_actions (a # as) = destroy_actions as"

text \<open>
  No failure has left \<open>run_me\<close>: the tasks in flight are as above, \<open>std::terminate\<close> has
  not been called, no worker is in the handler of \<open>wait_for_work\<close> and the handler has
  printed nothing, and a worker has returned only if the shutdown flag is set.
\<close>

definition quiet :: "'r state \<Rightarrow> bool" where
  "quiet s \<longleftrightarrow>
     inflight_ok s \<and> \<not> terminated s \<and> stdout s = [] \<and>
     (\<forall>th \<in> set (m_threads s). pc th \<noteq> Caught \<and> (pc th = Returned \<longrightarrow> m_done s))"

text \<open>
  The queue against its trace: what has been put in is what has been taken out followed by
  what is still there; every task put in has a shared state of its own.
\<close>

definition fifo :: "'r state \<Rightarrow> bool" where
  "fifo s \<longleftrightarrow>
     enqueued (history s) = dequeued (history s) @ m_queue s \<and>
     distinct (map get_future (enqueued (history s))) \<and>
     list_all (\<lambda>t. get_future t < length (heap s)) (enqueued (history s))"

text \<open>
  The future \<open>h\<close> delivers \<open>out\<close>: its shared state exists, every task in flight that
  owns it has a callable whose outcome is \<open>out\<close>, and the holder of the future sees
  either that it is not ready or \<open>out\<close>.
\<close>

definition delivers :: "future \<Rightarrow> 'r outcome \<Rightarrow> 'r state \<Rightarrow> bool" where
  "delivers h out s \<longleftrightarrow>
     h < length (heap s) \<and>
     list_all (\<lambda>t. get_future t = h \<longrightarrow> stored_task (m_task t) () = out) (in_flight s) \<and>
     (future_get s h = Not_ready \<or> future_get s h = Got out)"

text \<open>
  Where the destructor is, against the state and the trace: the actions of \<open>destroy\<close> so
  far, in order; the flag once it has been set; the threads joined so far have returned
  and are not joinable, the others are joinable.
\<close>

definition shutting_down :: "'r state \<Rightarrow> bool" where
  "shutting_down s \<longleftrightarrow>
     (case owner s of
        Alive \<Rightarrow>
          destroy_actions (history s) = [] \<and>
          (\<forall>j < length (m_threads s). joinable (m_threads s ! j))
      | Notifying \<Rightarrow>
          m_done s \<and> destroy_actions (history s) = [Set_done] \<and>
          (\<forall>j < length (m_threads s). joinable (m_threads s ! j))
      | Joining i \<Rightarrow>
          m_done s \<and> i \<le> length (m_threads s) \<and>
          destroy_actions (history s) = Set_done # Notify_all # map Join [0..<i] \<and>
          (\<forall>j < length (m_threads s).
             (if j < i then pc (m_threads s ! j) = Returned \<and> \<not> joinable (m_threads s ! j)
              else joinable (m_threads s ! j)))
      | Destroyed \<Rightarrow>
          m_done s \<and>
          destroy_actions (history s) =
            Set_done # Notify_all # map Join [0..<length (m_threads s)] \<and>
          (\<forall>j < length (m_threads s).
             pc (m_threads s ! j) = Returned \<and> \<not> joinable (m_threads s ! j)))"

text \<open>
  A pool without threads in which nothing has run: no shared state is ready and nothing
  has been taken from the queue.
\<close>

definition no_worker :: "'r state \<Rightarrow> bool" where
  "no_worker s \<longleftrightarrow>
     m_threads s = [] \<and> list_all (\<lambda>c. c = Pending) (heap s) \<and> dequeued (history s) = [] \<and>
     \<not> terminated s"

subsection \<open>Concrete scenarios\<close>

text \<open>
  Four callables (the square of one number; a throw of a \<open>std::exception\<close>; a throw of an
  \<open>int\<close>; the number of arguments of a call, as \<open>[](auto... xs) { return sizeof...(xs); }\<close>),
  and the state of a pool of \<open>n\<close> threads after a run.
\<close>

definition square :: "nat arg list \<Rightarrow> nat outcome" where
  "square xs = (case xs of [Obj x] \<Rightarrow> Returns (x * x) | _ \<Rightarrow> Returns 0)"

definition boom :: "nat arg list \<Rightarrow> nat outcome" where
  "boom xs = Throws (StdException ''boom'')"

definition throw42 :: "nat arg list \<Rightarrow> nat outcome" where
  "throw42 xs = Throws NonStdException"

definition count_args :: "nat arg list \<Rightarrow> nat outcome" where
  "count_args xs = Returns (length xs)"

definition after :: "(nat, nat) event list \<Rightarrow> nat \<Rightarrow> nat state" where
  "after evs n = the (run evs (constructed n))"

section \<open>Properties\<close>

subsection \<open>The steps, case by case\<close>

lemma set_pc_fields [simp]:
  "m_done (set_pc i p s) = m_done s"
  "m_queue (set_pc i p s) = m_queue s"
  "heap (set_pc i p s) = heap s"
  "stdout (set_pc i p s) = stdout s"
  "owner (set_pc i p s) = owner s"
  "terminated (set_pc i p s) = terminated s"
  "history (set_pc i p s) = history s"
  "length (m_threads (set_pc i p s)) = length (m_threads s)"
  by (simp_all add: set_pc_def)

lemma nth_set_pc:
  "j < length (m_threads s) \<Longrightarrow>
   m_threads (set_pc i p s) ! j = (if i = j then (m_threads s ! j)\<lparr>pc := p\<rparr> else m_threads s ! j)"
  by (simp add: set_pc_def nth_list_update)

lemma try_pop_cases:
  "try_pop s = Blocked \<longleftrightarrow> \<not> m_done s \<and> m_queue s = []"
  "try_pop s = Popped None s' \<longleftrightarrow> m_done s \<and> s' = s"
  "try_pop s = Popped (Some t) s' \<longleftrightarrow>
     \<not> m_done s \<and> (\<exists>rest. m_queue s = t # rest \<and>
        s' = s\<lparr>m_queue := rest, history := history s @ [Dequeue t]\<rparr>)"
  by (auto simp: try_pop_def split: list.splits)

lemma pending_iff:
  "pending s t \<longleftrightarrow> get_future t < length (heap s) \<and> heap s ! get_future t = Pending"
  by (simp add: pending_def future_get_def split: shared_state.splits)

lemma run_me_pending:
  "pending s t \<Longrightarrow> run_me t s =
     (None, s\<lparr>history := history s @ [Run_me (get_future t)],
              heap := (heap s)[get_future t := deliver (stored_task (m_task t) ())]\<rparr>)"
  by (simp add: pending_iff run_me_def invoke_def get_future_def)

lemma wait_for_work_elim
  [consumes 1, case_names leave enter sleep block nullopt pop ran caught escaped print]:
  assumes "wait_for_work i s = Some s'"
  obtains
    (leave) "i < length (m_threads s)" "pc (m_threads s ! i) = At_guard" "m_done s"
      "s' = set_pc i Returned s"
  | (enter) "i < length (m_threads s)" "pc (m_threads s ! i) = At_guard" "\<not> m_done s"
      "s' = set_pc i In_try_pop s"
  | (sleep) "i < length (m_threads s)" "pc (m_threads s ! i) = In_try_pop" "\<not> m_done s"
      "m_queue s = []" "mutex_free s" "s' = set_pc i About_to_wait s"
  | (block) "i < length (m_threads s)" "pc (m_threads s ! i) = About_to_wait"
      "s' = set_pc i Waiting s"
  | (nullopt) "i < length (m_threads s)" "pc (m_threads s ! i) = In_try_pop" "m_done s"
      "mutex_free s" "s' = set_pc i At_guard s"
  | (pop) t rest where "i < length (m_threads s)" "pc (m_threads s ! i) = In_try_pop"
      "\<not> m_done s" "m_queue s = t # rest" "mutex_free s"
      "s' = set_pc i (Has_task t) (s\<lparr>m_queue := rest, history := history s @ [Dequeue t]\<rparr>)"
  | (ran) t s1 where "i < length (m_threads s)" "pc (m_threads s ! i) = Has_task t"
      "run_me t s = (None, s1)" "s' = set_pc i At_guard s1"
  | (caught) t w s1 where "i < length (m_threads s)" "pc (m_threads s ! i) = Has_task t"
      "run_me t s = (Some (StdException w), s1)" "s' = set_pc i Caught s1"
  | (escaped) t s1 where "i < length (m_threads s)" "pc (m_threads s ! i) = Has_task t"
      "run_me t s = (Some NonStdException, s1)" "s' = s1\<lparr>terminated := True\<rparr>"
  | (print) "i < length (m_threads s)" "pc (m_threads s ! i) = Caught" "mutex_free s"
      "s' = set_pc i At_guard (s\<lparr>stdout := stdout s @ [diagnostic sliced_what]\<rparr>)"
proof -
  from assms have i: "i < length (m_threads s)"
    by (simp add: wait_for_work_def split: if_splits)
  show thesis
  proof (cases "pc (m_threads s ! i)")
    case At_guard
    with assms i show thesis
      by (cases "m_done s") (auto simp: wait_for_work_def intro: leave enter)
  next
    case In_try_pop
    with assms i have mf: "mutex_free s"
      and tp: "(case try_pop s of
                  Blocked \<Rightarrow> Some (set_pc i About_to_wait s)
                | Popped None s' \<Rightarrow> Some (set_pc i At_guard s')
                | Popped (Some task) s' \<Rightarrow> Some (set_pc i (Has_task task) s')) = Some s'"
      by (simp_all add: wait_for_work_def split: if_splits)
    show thesis
    proof (cases "try_pop s")
      case Blocked
      with tp have "s' = set_pc i About_to_wait s" by simp
      moreover from Blocked have "\<not> m_done s" "m_queue s = []"
        by (simp_all add: try_pop_cases)
      ultimately show thesis using i In_try_pop mf by (intro sleep)
    next
      case (Popped topt s1)
      show thesis
      proof (cases topt)
        case None
        with Popped tp have "s' = set_pc i At_guard s1" by simp
        moreover from Popped None have "m_done s" "s1 = s"
          by (simp_all add: try_pop_cases)
        ultimately show thesis using i In_try_pop mf by (intro nullopt) simp_all
      next
        case (Some t)
        with Popped tp have "s' = set_pc i (Has_task t) s1" by simp
        moreover from Popped Some obtain rest where "\<not> m_done s" "m_queue s = t # rest"
          "s1 = s\<lparr>m_queue := rest, history := history s @ [Dequeue t]\<rparr>"
          by (auto simp: try_pop_cases)
        ultimately show thesis using i In_try_pop mf by (intro pop) simp_all
      qed
    qed
  next
    case About_to_wait
    with assms i show thesis by (auto simp: wait_for_work_def intro: block)
  next
    case Waiting
    with assms i show thesis by (simp add: wait_for_work_def)
  next
    case (Has_task t)
    with assms i show thesis
      by (cases "run_me t s")
         (auto simp: wait_for_work_def split: option.splits exn.splits
               intro: ran caught escaped)
  next
    case Caught
    with assms i show thesis
      by (auto simp: wait_for_work_def split: if_splits intro: print)
  next
    case Returned
    with assms i show thesis by (simp add: wait_for_work_def)
  qed
qed

lemma make_task_no_fault:
  "make_task No_fault func args s =
     Inr (\<lparr>m_task = \<lparr>stored_task = (\<lambda>_. func (std_tuple args)), shared = length (heap s)\<rparr>\<rparr>,
          s\<lparr>heap := heap s @ [Pending]\<rparr>)"
  by (simp add: make_task_def)

lemma submit_elim [consumes 1, case_names no_task no_push pushed]:
  assumes "submit flt func args s = (r, s')"
  obtains
    (no_task) "flt = Fault_make_task" "r = Inl (ThreadPoolException adding_task_failed)" "s' = s"
  | (no_push) "flt = Fault_lock \<or> flt = Fault_push"
      "r = Inl (ThreadPoolException adding_task_failed)" "s' = s\<lparr>heap := heap s @ [Pending]\<rparr>"
  | (pushed) t where "flt = No_fault" "make_task No_fault func args s = Inr (t, s\<lparr>heap := heap s @ [Pending]\<rparr>)"
      "get_future t = length (heap s)" "stored_task (m_task t) () = func (std_tuple args)"
      "r = Inr (get_future t)"
      "s' = s\<lparr>heap := heap s @ [Pending],
              m_queue := m_queue s @ [t],
              m_threads := notify_one (m_threads s),
              history := history s @ [Enqueue t, Notify_one]\<rparr>"
  using assms
  by (cases flt) (auto simp: submit_def make_task_def add_task_def get_future_def)

lemma destroy_elim [consumes 1, case_names set_done notify join skip finish]:
  assumes "destroy s = Some s'"
  obtains
    (set_done) "owner s = Alive"
      "s' = s\<lparr>m_done := True, owner := Notifying, history := history s @ [Set_done]\<rparr>"
  | (notify) "owner s = Notifying"
      "s' = s\<lparr>m_threads := notify_all (m_threads s), owner := Joining 0,
              history := history s @ [Notify_all]\<rparr>"
  | (join) i where "owner s = Joining i" "i < length (m_threads s)"
      "joinable (m_threads s ! i)" "pc (m_threads s ! i) = Returned"
      "s' = s\<lparr>m_threads := (m_threads s)[i := (m_threads s ! i)\<lparr>joinable := False\<rparr>],
              owner := Joining (Suc i), history := history s @ [Join i]\<rparr>"
  | (skip) i where "owner s = Joining i" "i < length (m_threads s)"
      "\<not> joinable (m_threads s ! i)" "s' = s\<lparr>owner := Joining (Suc i)\<rparr>"
  | (finish) i where "owner s = Joining i" "\<not> i < length (m_threads s)"
      "s' = s\<lparr>owner := Destroyed\<rparr>"
  using assms
  by (cases "owner s") (auto simp: destroy_def split: if_splits pc.splits)

lemma step_elim [consumes 1, case_names submit worker wake destroy]:
  assumes "step ev s = Some s'"
  obtains
    (submit) flt func args where "ev = Submit flt func args" "\<not> terminated s" "owner s = Alive"
      "s' = snd (submit flt func args s)" "flt = No_fault \<longrightarrow> mutex_free s"
  | (worker) i where "ev = Worker i" "\<not> terminated s" "wait_for_work i s = Some s'"
  | (wake) i where "ev = Wake i" "\<not> terminated s" "i < length (m_threads s)"
      "pc (m_threads s ! i) = Waiting" "s' = set_pc i In_try_pop s"
  | (destroy) "ev = Destroy" "\<not> terminated s" "destroy s = Some s'"
  using assms
  by (cases ev)
     (auto simp: step_def spurious_wakeup_def split: if_splits owner_pc.splits pc.splits)

text \<open>An invariant of the steps holds along every run.\<close>

lemma run_induct:
  fixes evs :: "('a, 'r) event list"
  assumes "run evs s = Some s'" and "P s"
    and "\<And>(ev :: ('a, 'r) event) s s'. P s \<Longrightarrow> step ev s = Some s' \<Longrightarrow> P s'"
  shows "P s'"
  using assms(1,2)
proof (induction evs arbitrary: s)
  case Nil
  then show ?case by simp
next
  case (Cons ev evs)
  from Cons.prems(1) obtain s1 where s1: "step ev s = Some s1" and rest: "run evs s1 = Some s'"
    by (auto split: option.splits)
  from Cons.prems(2) s1 have "P s1" by (rule assms(3))
  with rest show ?case by (rule Cons.IH)
qed

lemma run_append:
  "run (evs @ evs') s = (case run evs s of None \<Rightarrow> None | Some s' \<Rightarrow> run evs' s')"
  by (induction evs arbitrary: s) (auto split: option.splits)

subsection \<open>The condition variable and the tasks the threads hold\<close>

lemma length_notify_one [simp]: "length (notify_one ts) = length ts"
  by (induction ts) auto

lemma length_notify_all [simp]: "length (notify_all ts) = length ts"
  by (simp add: notify_all_def)

lemma holding_wake [simp]: "holding (wake th) = holding th"
  by (auto split: pc.splits)

lemma joinable_wake [simp]: "joinable (wake th) = joinable th"
  by simp

lemma held_notify_one [simp]: "held (notify_one ts) = held ts"
  by (induction ts) (auto simp: held_def simp del: holding.simps wake.simps is_waiting.simps)

lemma held_notify_all [simp]: "held (notify_all ts) = held ts"
  by (induction ts) (auto simp: held_def notify_all_def simp del: holding.simps wake.simps)

lemma held_split:
  "i < length ts \<Longrightarrow> held ts = held (take i ts) @ holding (ts ! i) @ held (drop (Suc i) ts)"
  unfolding held_def
  by (subst id_take_nth_drop[of i ts]) (simp_all del: holding.simps)

lemma held_update:
  "i < length ts \<Longrightarrow> held (ts[i := th]) = held (take i ts) @ holding th @ held (drop (Suc i) ts)"
  unfolding held_def
  by (simp add: upd_conv_take_nth_drop del: holding.simps)

lemma held_update_same:
  "i < length ts \<Longrightarrow> holding th = holding (ts ! i) \<Longrightarrow> held (ts[i := th]) = held ts"
  by (simp add: held_update held_split[of i ts] del: holding.simps)

lemma held_set_pc:
  "i < length (m_threads s) \<Longrightarrow>
   held (m_threads (set_pc i p s)) =
     held (take i (m_threads s)) @ (case p of Has_task t \<Rightarrow> [t] | _ \<Rightarrow> []) @
     held (drop (Suc i) (m_threads s))"
  by (simp add: set_pc_def held_update)

lemma held_set_pc_same:
  "i < length (m_threads s) \<Longrightarrow> holding (m_threads s ! i) = [] \<Longrightarrow>
   (case p of Has_task t \<Rightarrow> False | _ \<Rightarrow> True) \<Longrightarrow>
   held (m_threads (set_pc i p s)) = held (m_threads s)"
  by (auto simp: set_pc_def held_update_same split: pc.splits)

subsection \<open>Tasks in flight have a shared state of their own that is not ready\<close>

lemma pending_heap: "heap s' = heap s \<Longrightarrow> pending s' t = pending s t"
  by (simp add: pending_iff)

lemma pending_alloc: "pending s t \<Longrightarrow> heap s' = heap s @ [Pending] \<Longrightarrow> pending s' t"
  by (simp add: pending_iff nth_append)

lemma pending_store:
  "pending s t \<Longrightarrow> get_future t \<noteq> h \<Longrightarrow> heap s' = (heap s)[h := v] \<Longrightarrow> pending s' t"
  by (simp add: pending_iff)

lemma inflight_ok_iff:
  "inflight_ok s \<longleftrightarrow>
     distinct (map get_future (in_flight s)) \<and> (\<forall>t \<in> set (in_flight s). pending s t)"
  by (simp add: inflight_ok_def list_all_iff)

lemma inflight_ok_perm:
  assumes "inflight_ok s" and "mset (in_flight s') = mset (in_flight s)" and "heap s' = heap s"
  shows "inflight_ok s'"
proof -
  from assms(2) have "mset (map get_future (in_flight s')) = mset (map get_future (in_flight s))"
    by (metis mset_map)
  then have "distinct (map get_future (in_flight s')) = distinct (map get_future (in_flight s))"
    by (rule mset_eq_imp_distinct_iff)
  moreover from assms(2) have "set (in_flight s') = set (in_flight s)"
    by (rule mset_eq_setD)
  ultimately show ?thesis
    using assms(1,3) by (simp add: inflight_ok_iff pending_heap[OF assms(3)])
qed

lemma inflight_ok_same:
  "inflight_ok s \<Longrightarrow> m_queue s' = m_queue s \<Longrightarrow> held (m_threads s') = held (m_threads s) \<Longrightarrow>
   heap s' = heap s \<Longrightarrow> inflight_ok s'"
  by (rule inflight_ok_perm) (simp_all add: in_flight_def)

lemma inflight_ok_submit:
  assumes "inflight_ok s"
  shows "inflight_ok (snd (submit flt func args s))"
proof (cases "submit flt func args s")
  case (Pair r s')
  then show ?thesis
  proof (cases rule: submit_elim)
    case no_task
    with Pair assms show ?thesis by simp
  next
    case no_push
    then have "in_flight s' = in_flight s" and "heap s' = heap s @ [Pending]"
      by (simp_all add: in_flight_def)
    with assms have "inflight_ok s'"
      by (auto simp: inflight_ok_iff intro: pending_alloc)
    with Pair show ?thesis by simp
  next
    case (pushed t)
    note new = \<open>get_future t = length (heap s)\<close>
    from assms have old: "\<forall>u \<in> set (in_flight s). get_future u < length (heap s)"
      by (simp add: inflight_ok_iff pending_iff)
    then have notin: "get_future t \<notin> get_future ` set (in_flight s)"
      unfolding new by (auto simp: image_iff)
    from pushed have fl: "mset (in_flight s') = mset (t # in_flight s)"
      and hp: "heap s' = heap s @ [Pending]"
      by (simp_all add: in_flight_def)
    from fl have "mset (map get_future (in_flight s')) = mset (map get_future (t # in_flight s))"
      by (metis mset_map)
    then have "distinct (map get_future (in_flight s')) = distinct (map get_future (t # in_flight s))"
      by (rule mset_eq_imp_distinct_iff)
    with assms notin have d: "distinct (map get_future (in_flight s'))"
      by (simp add: inflight_ok_iff)
    from fl have st: "set (in_flight s') = insert t (set (in_flight s))"
      by (metis mset_eq_setD list.simps(15))
    have "pending s' t"
      by (simp add: pending_iff new hp)
    with assms hp have "\<forall>u \<in> set (in_flight s'). pending s' u"
      unfolding st by (auto simp: inflight_ok_iff intro: pending_alloc)
    with d Pair show ?thesis by (simp add: inflight_ok_iff)
  qed
qed

lemma inflight_ok_ran:
  assumes ok: "inflight_ok s" and i: "i < length (m_threads s)"
    and pc: "pc (m_threads s ! i) = Has_task t"
  shows "pending s t"
    and "inflight_ok (set_pc i At_guard
           (s\<lparr>history := hist, heap := (heap s)[get_future t := v]\<rparr>))" (is "inflight_ok ?s'")
proof -
  let ?A = "held (take i (m_threads s))" and ?B = "held (drop (Suc i) (m_threads s))"
  from i pc have fl: "in_flight s = m_queue s @ ?A @ [t] @ ?B"
    by (simp add: in_flight_def held_split[of i "m_threads s"])
  from i have fl': "in_flight ?s' = m_queue s @ ?A @ ?B"
    by (simp add: in_flight_def held_set_pc)
  from ok show "pending s t"
    by (simp add: inflight_ok_iff fl)
  from ok have d: "distinct (map get_future (m_queue s @ ?A @ [t] @ ?B))"
    and fr: "\<forall>u \<in> set (m_queue s @ ?A @ [t] @ ?B). pending s u"
    by (simp_all add: inflight_ok_iff fl)
  from d have d': "distinct (map get_future (m_queue s @ ?A @ ?B))"
    and ne: "\<forall>u \<in> set (m_queue s @ ?A @ ?B). get_future u \<noteq> get_future t"
    by (auto simp: image_iff)
  have hp: "heap ?s' = (heap s)[get_future t := v]"
    by simp
  have "\<forall>u \<in> set (m_queue s @ ?A @ ?B). pending ?s' u"
  proof
    fix u assume u: "u \<in> set (m_queue s @ ?A @ ?B)"
    with fr have "pending s u" by auto
    moreover from ne u have "get_future u \<noteq> get_future t" by blast
    ultimately show "pending ?s' u" using hp by (rule pending_store)
  qed
  with d' show "inflight_ok ?s'"
    unfolding inflight_ok_iff fl' by blast
qed

lemma inflight_ok_wait_for_work:
  assumes "inflight_ok s" and "wait_for_work i s = Some s'"
  shows "inflight_ok s'"
  using assms(2)
proof (cases rule: wait_for_work_elim)
  case leave
  with assms(1) show ?thesis
    by (simp add: inflight_ok_same[of s] held_set_pc_same)
next
  case enter
  with assms(1) show ?thesis
    by (simp add: inflight_ok_same[of s] held_set_pc_same)
next
  case sleep
  with assms(1) show ?thesis
    by (simp add: inflight_ok_same[of s] held_set_pc_same)
next
  case nullopt
  with assms(1) show ?thesis
    by (simp add: inflight_ok_same[of s] held_set_pc_same)
next
  case (pop t rest)
  then have "mset (in_flight s') = mset (in_flight s)" and "heap s' = heap s"
    by (simp_all add: in_flight_def held_set_pc held_split[of i "m_threads s"])
  with assms(1) show ?thesis by (rule inflight_ok_perm)
next
  case (ran t s1)
  from assms(1) ran(1,2) have "pending s t" by (rule inflight_ok_ran)
  with ran(3) have s1: "s1 = s\<lparr>history := history s @ [Run_me (get_future t)],
              heap := (heap s)[get_future t := deliver (stored_task (m_task t) ())]\<rparr>"
    by (simp add: run_me_pending)
  from assms(1) ran(1,2) show ?thesis
    unfolding ran(4) s1 by (rule inflight_ok_ran)
next
  case (caught t w s1)
  from assms(1) caught(1,2) have "pending s t" by (rule inflight_ok_ran)
  with caught(3) show ?thesis by (simp add: run_me_pending)
next
  case (escaped t s1)
  from assms(1) escaped(1,2) have "pending s t" by (rule inflight_ok_ran)
  with escaped(3) show ?thesis by (simp add: run_me_pending)
next
  case block
  with assms(1) show ?thesis
    by (simp add: inflight_ok_same[of s] held_set_pc_same)
next
  case print
  with assms(1) show ?thesis
    by (simp add: inflight_ok_same[of s] held_set_pc_same)
qed

lemma inflight_ok_step:
  assumes "inflight_ok s" and "step ev s = Some s'"
  shows "inflight_ok s'"
  using assms(2)
proof (cases rule: step_elim)
  case (submit flt func args)
  with assms(1) show ?thesis by (simp add: inflight_ok_submit)
next
  case (worker i)
  with assms(1) show ?thesis by (blast intro: inflight_ok_wait_for_work)
next
  case (wake i)
  with assms(1) show ?thesis
    by (simp add: inflight_ok_same[of s] held_set_pc_same)
next
  case destroy
  from destroy(3) assms(1) show ?thesis
    by (cases rule: destroy_elim)
       (simp_all add: inflight_ok_same[of s] held_update_same)
qed

lemma inflight_ok_run: "inflight_ok s \<Longrightarrow> run evs s = Some s' \<Longrightarrow> inflight_ok s'"
  by (rule run_induct[where P = inflight_ok]) (auto intro: inflight_ok_step)

subsection \<open>The constructor\<close>

lemma replicate_diff: "i < k \<Longrightarrow> replicate (k - i) x = x # replicate (k - Suc i) x"
  by (cases "k - i") (auto simp: Suc_diff_Suc)

lemma spawn_loop_find:
  "spawn_loop spawn_ok i n ts =
     (case find (\<lambda>j. \<not> spawn_ok j) [i..<n] of
        None \<Rightarrow> (None, ts @ replicate (n - i) new_thread)
      | Some k \<Rightarrow> (Some (StdException ''std::system_error''), ts @ replicate (k - i) new_thread))"
proof (induction spawn_ok i n ts rule: spawn_loop.induct)
  case (1 spawn_ok i n ts)
  show ?case
  proof (cases "i < n")
    case False
    then show ?thesis by (subst spawn_loop.simps) simp
  next
    case True
    note lt = this
    then have up: "[i..<n] = i # [Suc i..<n]" by (rule upt_conv_Cons)
    show ?thesis
    proof (cases "spawn_ok i")
      case False
      with lt show ?thesis by (subst spawn_loop.simps) (simp add: up)
    next
      case True
      note ok = this
      have step: "spawn_loop spawn_ok i n ts = spawn_loop spawn_ok (Suc i) n (ts @ [new_thread])"
        using lt ok by (subst spawn_loop.simps) simp
      show ?thesis
      proof (cases "find (\<lambda>j. \<not> spawn_ok j) [Suc i..<n]")
        case None
        with lt ok "1.IH" show ?thesis
          by (simp add: step up replicate_diff[of i n])
      next
        case (Some k)
        then have "i < k" by (auto simp: find_Some_iff)
        with Some lt ok "1.IH" show ?thesis
          by (simp add: step up replicate_diff[of i k])
      qed
    qed
  qed
qed

lemma spawn_loop_ok:
  assumes "\<forall>j < n. spawn_ok j"
  shows "spawn_loop spawn_ok 0 n [] = (None, replicate n new_thread)"
proof -
  from assms have "find (\<lambda>j. \<not> spawn_ok j) [0..<n] = None"
    by (simp add: find_None_iff)
  then show ?thesis by (simp add: spawn_loop_find)
qed

lemma spawn_loop_fails:
  assumes "\<not> (\<forall>j < n. spawn_ok j)"
  shows "\<exists>k < n. \<not> spawn_ok k \<and> (\<forall>j < k. spawn_ok j) \<and>
     spawn_loop spawn_ok 0 n [] = (Some (StdException ''std::system_error''), replicate k new_thread)"
proof -
  from assms obtain k where k: "find (\<lambda>j. \<not> spawn_ok j) [0..<n] = Some k"
    by (cases "find (\<lambda>j. \<not> spawn_ok j) [0..<n]") (auto simp: find_None_iff)
  then have "k < n" "\<not> spawn_ok k" "\<forall>j < k. spawn_ok j"
    by (auto simp: find_Some_iff)
  with k show ?thesis by (auto simp: spawn_loop_find)
qed

lemma throw_from_constructor_neq [simp]: "throw_from_constructor e s \<noteq> Constructed s'"
  by (simp add: throw_from_constructor_def)

lemma ThreadPool_Constructed_iff:
  fixes s :: "'r state"
  shows "ThreadPool reserve_ok spawn_ok num_threads = Constructed s \<longleftrightarrow>
     (unat num_threads = 0 \<or> reserve_ok) \<and> (\<forall>j < unat num_threads. spawn_ok j) \<and>
     s = constructed (unat num_threads)"
proof (cases "\<forall>j < unat num_threads. spawn_ok j")
  case True
  then show ?thesis
    by (auto simp: ThreadPool_def spawn_loop_ok constructed_def)
next
  case False
  from spawn_loop_fails[OF this] obtain k where eq:
    "spawn_loop spawn_ok 0 (unat num_threads) [] =
       (Some (StdException ''std::system_error''), replicate k (new_thread :: 'r thread))"
    by blast
  have "\<exists>e st. (ThreadPool reserve_ok spawn_ok num_threads :: 'r construction) =
      throw_from_constructor e st"
    unfolding ThreadPool_def eq by auto
  then have "ThreadPool reserve_ok spawn_ok num_threads \<noteq> Constructed s"
    by (auto simp: throw_from_constructor_def split: if_splits)
  with False show ?thesis by simp
qed

lemma list_ex_joinable_replicate:
  "list_ex joinable (replicate k (new_thread :: 'r thread)) \<longleftrightarrow> 0 < k"
  by (cases k) (simp_all add: new_thread_def)

lemma ThreadPool_outcome:
  fixes num_threads :: "32 word"
  shows "(ThreadPool reserve_ok spawn_ok num_threads :: 'r construction) =
    (if 0 < unat num_threads \<and> \<not> reserve_ok
     then Construction_failed (ThreadPoolException constructor_failed)
     else if \<forall>j < unat num_threads. spawn_ok j then Constructed (constructed (unat num_threads))
     else if spawn_ok 0 then Terminate_called
     else Construction_failed (ThreadPoolException constructor_failed))"
proof (cases "\<forall>j < unat num_threads. spawn_ok j")
  case True
  then show ?thesis
    by (simp add: ThreadPool_def spawn_loop_ok constructed_def throw_from_constructor_def
        members_initialised_def)
next
  case False
  from spawn_loop_fails[OF this] obtain k where k: "k < unat num_threads" "\<not> spawn_ok k"
    "\<forall>j < k. spawn_ok j"
    and eq: "spawn_loop spawn_ok 0 (unat num_threads) [] =
       (Some (StdException ''std::system_error''), replicate k (new_thread :: 'r thread))"
    by blast
  from k have "spawn_ok 0 \<longleftrightarrow> 0 < k" by (cases k) auto
  with False show ?thesis
    unfolding ThreadPool_def eq
    by (auto simp: throw_from_constructor_def list_ex_joinable_replicate members_initialised_def)
qed

lemma constructed_fields [simp]:
  "m_done (constructed n) = False"
  "m_queue (constructed n) = []"
  "m_threads (constructed n) = replicate n new_thread"
  "heap (constructed n) = []"
  "stdout (constructed n) = []"
  "owner (constructed n) = Alive"
  "terminated (constructed n) = False"
  "history (constructed n) = []"
  by (simp_all add: constructed_def members_initialised_def)

lemma wait_for_work_done:
  "wait_for_work i s = Some s' \<Longrightarrow> m_done s' = m_done s"
  by (cases rule: wait_for_work_elim) (auto simp: run_me_def invoke_def split: if_splits shared_state.splits)

lemma submit_fields [simp]:
  "m_done (snd (submit flt func args s)) = m_done s"
  "stdout (snd (submit flt func args s)) = stdout s"
  "owner (snd (submit flt func args s)) = owner s"
  "terminated (snd (submit flt func args s)) = terminated s"
  by (simp_all add: submit_def make_task_def add_task_def Let_def split: fault.splits)

lemma step_done:
  assumes "m_done s" and "step ev s = Some s'"
  shows "m_done s'"
  using assms(2)
proof (cases rule: step_elim)
  case (submit flt func args)
  with assms(1) show ?thesis by simp
next
  case (worker i)
  with assms(1) show ?thesis by (simp add: wait_for_work_done)
next
  case (wake i)
  with assms(1) show ?thesis by simp
next
  case destroy
  from destroy(3) assms(1) show ?thesis by (cases rule: destroy_elim) auto
qed

lemma run_done: "m_done s \<Longrightarrow> run evs s = Some s' \<Longrightarrow> m_done s'"
  by (rule run_induct[where P = m_done]) (auto intro: step_done)

subsection \<open>The ghost trace\<close>

lemma enqueued_append [simp]: "enqueued (xs @ ys) = enqueued xs @ enqueued ys"
  by (induction xs rule: enqueued.induct) simp_all

lemma dequeued_append [simp]: "dequeued (xs @ ys) = dequeued xs @ dequeued ys"
  by (induction xs rule: dequeued.induct) simp_all

lemma destroy_actions_append [simp]:
  "destroy_actions (xs @ ys) = destroy_actions xs @ destroy_actions ys"
  by (induction xs rule: destroy_actions.induct) simp_all

lemma step_done_queue:
  assumes "m_done s" and "step ev s = Some s'"
  shows "(\<exists>more. m_queue s' = m_queue s @ more) \<and> dequeued (history s') = dequeued (history s)"
  using assms(2)
proof (cases rule: step_elim)
  case (submit flt func args)
  obtain r s1 where sub: "submit flt func args s = (r, s1)" by force
  with submit(4) have s': "s' = s1" by simp
  from sub show ?thesis unfolding s' by (cases rule: submit_elim) simp_all
next
  case (worker i)
  from worker(3) assms(1) show ?thesis
  proof (cases rule: wait_for_work_elim)
    case (ran t s1)
    then have "m_queue s' = m_queue (snd (run_me t s))" "history s' = history (snd (run_me t s))"
      by simp_all
    then show ?thesis by (simp add: run_me_def invoke_def split: if_splits shared_state.splits)
  next
    case (caught t w s1)
    then have "m_queue s' = m_queue (snd (run_me t s))" "history s' = history (snd (run_me t s))"
      by simp_all
    then show ?thesis by (simp add: run_me_def invoke_def split: if_splits shared_state.splits)
  next
    case (escaped t s1)
    then have "m_queue s' = m_queue (snd (run_me t s))" "history s' = history (snd (run_me t s))"
      by simp_all
    then show ?thesis by (simp add: run_me_def invoke_def split: if_splits shared_state.splits)
  qed simp_all
next
  case (wake i)
  then show ?thesis by simp
next
  case destroy
  from destroy(3) show ?thesis by (cases rule: destroy_elim) simp_all
qed

text \<open>The defining equations, for the evaluation of concrete runs.\<close>

lemmas pool_eval =
  step_def submit_def make_task_def add_task_def get_future_def wait_for_work_def try_pop_def
  run_me_def invoke_def set_pc_def destroy_def spurious_wakeup_def notify_all_def
  constructed_def members_initialised_def new_thread_def future_get_def mutex_free_def

lemma run_done_queue:
  fixes evs :: "('a, 'r) event list" and s :: "'r state"
  assumes "m_done s" and "run evs s = Some s'"
  shows "m_done s' \<and> (\<exists>more. m_queue s' = m_queue s @ more) \<and>
    dequeued (history s') = dequeued (history s)"
  using assms(2)
proof (rule run_induct)
  show "m_done s \<and> (\<exists>more. m_queue s = m_queue s @ more) \<and>
    dequeued (history s) = dequeued (history s)"
    using assms(1) by simp
next
  fix ev :: "('a, 'r) event" and x x' :: "'r state"
  assume inv: "m_done x \<and> (\<exists>more. m_queue x = m_queue s @ more) \<and>
    dequeued (history x) = dequeued (history s)"
    and st: "step ev x = Some x'"
  from inv st have "m_done x'" by (blast intro: step_done)
  moreover from inv st step_done_queue[of x ev x']
  have "(\<exists>more. m_queue x' = m_queue s @ more) \<and> dequeued (history x') = dequeued (history s)"
    by auto
  ultimately show "m_done x' \<and> (\<exists>more. m_queue x' = m_queue s @ more) \<and>
    dequeued (history x') = dequeued (history s)"
    by blast
qed

lemmas inv_eval = inflight_ok_def in_flight_def held_def pending_def

subsection \<open>No failure leaves \<open>run_me\<close>\<close>

lemma set_notify_one: "set (notify_one ts) \<subseteq> set ts \<union> wake ` set ts"
  by (induction ts) auto

lemma set_notify_all: "set (notify_all ts) = wake ` set ts"
  by (simp add: notify_all_def)

lemma pc_wake_Returned [simp]: "pc (wake th) = Returned \<longleftrightarrow> pc th = Returned"
  by (auto split: pc.splits)

lemma pc_wake_Caught [simp]: "pc (wake th) = Caught \<longleftrightarrow> pc th = Caught"
  by (auto split: pc.splits)

lemma set_threads_set_pc:
  "set (m_threads (set_pc i p s)) \<subseteq> insert ((m_threads s ! i)\<lparr>pc := p\<rparr>) (set (m_threads s))"
  by (simp add: set_pc_def set_update_subset_insert)

lemma worker_runs_task:
  assumes "inflight_ok s" and "\<not> terminated s" and "i < length (m_threads s)"
    and "pc (m_threads s ! i) = Has_task t"
  shows "step (Worker i :: ('a, 'r) event) s =
    Some (set_pc i At_guard
      (s\<lparr>history := history s @ [Run_me (get_future t)],
         heap := (heap s)[get_future t := deliver (stored_task (m_task t) ())]\<rparr>))"
proof -
  from assms(1,3,4) have "pending s t" by (rule inflight_ok_ran)
  with assms(2,3,4) show ?thesis
    by (simp add: step_def wait_for_work_def run_me_pending)
qed

lemma returned_submit:
  assumes "\<forall>th \<in> set (m_threads s). pc th \<noteq> Caught \<and> (pc th = Returned \<longrightarrow> m_done s)"
  shows "\<forall>th \<in> set (m_threads (snd (submit flt func args s))).
    pc th \<noteq> Caught \<and> (pc th = Returned \<longrightarrow> m_done s)"
proof (cases "submit flt func args s")
  case (Pair r s')
  then show ?thesis
  proof (cases rule: submit_elim)
    case (pushed t)
    with Pair assms set_notify_one[of "m_threads s"] show ?thesis
      by (auto simp del: wake.simps)
  qed (use Pair assms in simp_all)
qed

lemma quiet_step:
  assumes "quiet s" and "step ev s = Some s'"
  shows "quiet s'"
proof -
  from assms have ok: "inflight_ok s'"
    by (auto simp: quiet_def intro: inflight_ok_step)
  from assms(1) have q: "\<not> terminated s" "stdout s = []"
    and ret: "\<forall>th \<in> set (m_threads s). pc th \<noteq> Caught \<and> (pc th = Returned \<longrightarrow> m_done s)"
    and ok0: "inflight_ok s"
    by (simp_all add: quiet_def)
  from assms(2) have "\<not> terminated s' \<and> stdout s' = [] \<and>
     (\<forall>th \<in> set (m_threads s'). pc th \<noteq> Caught \<and> (pc th = Returned \<longrightarrow> m_done s'))"
  proof (cases rule: step_elim)
    case (submit flt func args)
    with q returned_submit[OF ret, of flt func args] show ?thesis by simp
  next
    case (worker i)
    from worker(3) show ?thesis
    proof (cases rule: wait_for_work_elim)
      case (ran t s1)
      from ok0 ran(1,2) have "pending s t" by (rule inflight_ok_ran)
      with ran(3) have "s1 = s\<lparr>history := history s @ [Run_me (get_future t)],
              heap := (heap s)[get_future t := deliver (stored_task (m_task t) ())]\<rparr>"
        by (simp add: run_me_pending)
      with ran q ret set_threads_set_pc[of i At_guard s1] show ?thesis
        by auto
    next
      case (caught t w s1)
      from ok0 caught(1,2) have "pending s t" by (rule inflight_ok_ran)
      with caught(3) show ?thesis by (simp add: run_me_pending)
    next
      case (escaped t s1)
      from ok0 escaped(1,2) have "pending s t" by (rule inflight_ok_ran)
      with escaped(3) show ?thesis by (simp add: run_me_pending)
    next
      case leave
      with q ret set_threads_set_pc[of i Returned s] show ?thesis by auto
    next
      case enter
      with q ret set_threads_set_pc[of i In_try_pop s] show ?thesis by auto
    next
      case sleep
      with q ret set_threads_set_pc[of i About_to_wait s] show ?thesis by auto
    next
      case block
      with q ret set_threads_set_pc[of i Waiting s] show ?thesis by auto
    next
      case print
      with ret nth_mem[of i "m_threads s"] show ?thesis by auto
    next
      case nullopt
      with q ret set_threads_set_pc[of i At_guard s] show ?thesis by auto
    next
      case (pop t rest)
      with q ret set_threads_set_pc[of i "Has_task t" "s\<lparr>m_queue := rest, history := history s @ [Dequeue t]\<rparr>"]
      show ?thesis by auto
    qed
  next
    case (wake i)
    with q ret set_threads_set_pc[of i In_try_pop s] show ?thesis by auto
  next
    case destroy
    from destroy(3) show ?thesis
    proof (cases rule: destroy_elim)
      case (join i)
      with q ret set_update_subset_insert[of "m_threads s" i "(m_threads s ! i)\<lparr>joinable := False\<rparr>"]
      show ?thesis by auto
    next
      case notify
      with q ret show ?thesis by (auto simp: set_notify_all simp del: wake.simps)
    qed (use q ret in auto)
  qed
  with ok show ?thesis by (simp add: quiet_def)
qed

lemma quiet_constructed: "quiet (constructed n)"
  by (simp add: quiet_def inv_eval new_thread_def)

lemma quiet_reachable:
  fixes evs :: "('a, 'r) event list" and s :: "'r state"
  assumes "ThreadPool reserve_ok spawn_ok num_threads = Constructed s0"
    and "run evs s0 = Some s"
  shows "quiet s"
  using assms(2)
proof (rule run_induct)
  from assms(1) show "quiet s0"
    by (simp add: ThreadPool_Constructed_iff quiet_constructed)
qed (rule quiet_step)

lemma run_me_stores:
  "pending s t \<Longrightarrow> fst (run_me t s) = None \<and>
     future_get (snd (run_me t s)) (get_future t) = Got (stored_task (m_task t) ())"
  by (cases "stored_task (m_task t) ()") (simp_all add: run_me_pending future_get_def pending_iff)

lemma worker_runs_task_stores:
  assumes "quiet s" and "i < length (m_threads s)" and "pc (m_threads s ! i) = Has_task t"
  shows "\<exists>s'. step (Worker i :: ('a, 'r) event) s = Some s' \<and> pc (m_threads s' ! i) = At_guard \<and>
    \<not> terminated s' \<and> stdout s' = [] \<and> m_queue s' = m_queue s \<and> owner s' = owner s \<and>
    future_get s' (get_future t) = Got (stored_task (m_task t) ())"
proof -
  from assms have ok: "inflight_ok s" and nt: "\<not> terminated s" and out: "stdout s = []"
    by (simp_all add: quiet_def)
  from ok assms(2,3) have p: "pending s t" by (rule inflight_ok_ran)
  from ok nt assms(2,3) have "step (Worker i :: ('a, 'r) event) s =
    Some (set_pc i At_guard
      (s\<lparr>history := history s @ [Run_me (get_future t)],
         heap := (heap s)[get_future t := deliver (stored_task (m_task t) ())]\<rparr>))"
    by (rule worker_runs_task)
  with p nt out assms(2) show ?thesis
    by (cases "stored_task (m_task t) ()")
       (simp_all add: nth_set_pc future_get_def pending_iff)
qed

subsection \<open>The queue against its trace\<close>

lemma run_me_fields:
  "m_done (snd (run_me t s)) = m_done s"
  "m_queue (snd (run_me t s)) = m_queue s"
  "m_threads (snd (run_me t s)) = m_threads s"
  "stdout (snd (run_me t s)) = stdout s"
  "owner (snd (run_me t s)) = owner s"
  "terminated (snd (run_me t s)) = terminated s"
  "history (snd (run_me t s)) = history s @ [Run_me (get_future t)]"
  "length (heap (snd (run_me t s))) = length (heap s)"
  by (simp_all add: run_me_def invoke_def split: shared_state.splits)

lemma fifoI:
  assumes "enqueued (history s') = dequeued (history s') @ m_queue s'"
    and "enqueued (history s') = enqueued (history s) \<or>
         (\<exists>t. enqueued (history s') = enqueued (history s) @ [t] \<and> get_future t = length (heap s))"
    and "length (heap s) \<le> length (heap s')"
    and "enqueued (history s') \<noteq> enqueued (history s) \<longrightarrow> length (heap s) < length (heap s')"
    and "fifo s"
  shows "fifo s'"
proof -
  from assms(5) have d: "distinct (map get_future (enqueued (history s)))"
    and b: "\<forall>u \<in> set (enqueued (history s)). get_future u < length (heap s)"
    unfolding fifo_def list_all_iff by blast+
  from assms(2) show ?thesis
  proof
    assume same: "enqueued (history s') = enqueued (history s)"
    with d b assms(1,3) show ?thesis
      unfolding fifo_def list_all_iff by (metis less_le_trans)
  next
    assume "\<exists>t. enqueued (history s') = enqueued (history s) @ [t] \<and> get_future t = length (heap s)"
    then obtain t where t: "enqueued (history s') = enqueued (history s) @ [t]"
      and h: "get_future t = length (heap s)" by blast
    from b h have "get_future t \<notin> get_future ` set (enqueued (history s))"
      by (auto simp: image_iff)
    with d have d': "distinct (map get_future (enqueued (history s')))"
      unfolding t by simp
    from t assms(4) have lt: "length (heap s) < length (heap s')" by simp
    with b h have "\<forall>u \<in> set (enqueued (history s')). get_future u < length (heap s')"
      unfolding t by auto
    with d' assms(1) show ?thesis
      unfolding fifo_def list_all_iff by blast
  qed
qed

lemma fifo_submit:
  assumes "fifo s"
  shows "fifo (snd (submit flt func args s))"
proof (cases "submit flt func args s")
  case (Pair r s')
  from assms have eq: "enqueued (history s) = dequeued (history s) @ m_queue s"
    unfolding fifo_def by blast
  from Pair have "fifo s'"
  proof (cases rule: submit_elim)
    case no_task
    with assms show ?thesis by simp
  next
    case no_push
    with eq show ?thesis by (intro fifoI[OF _ _ _ _ assms]) simp_all
  next
    case (pushed t)
    with eq show ?thesis by (intro fifoI[OF _ _ _ _ assms]) simp_all
  qed
  with Pair show ?thesis by simp
qed

lemma fifo_step:
  assumes "fifo s" and "step ev s = Some s'"
  shows "fifo s'"
proof -
  from assms(1) have eq: "enqueued (history s) = dequeued (history s) @ m_queue s"
    unfolding fifo_def by blast
  from assms(2) show ?thesis
  proof (cases rule: step_elim)
    case (submit flt func args)
    with assms(1) show ?thesis by (simp add: fifo_submit)
  next
    case (worker i)
    from worker(3) show ?thesis
    proof (cases rule: wait_for_work_elim)
      case (ran t s1)
      then have "history s' = history s @ [Run_me (get_future t)]" "m_queue s' = m_queue s"
        "length (heap s') = length (heap s)"
        using run_me_fields[of t s] by simp_all
      with eq show ?thesis by (intro fifoI[OF _ _ _ _ assms(1)]) simp_all
    next
      case (caught t w s1)
      then have "history s' = history s @ [Run_me (get_future t)]" "m_queue s' = m_queue s"
        "length (heap s') = length (heap s)"
        using run_me_fields[of t s] by simp_all
      with eq show ?thesis by (intro fifoI[OF _ _ _ _ assms(1)]) simp_all
    next
      case (escaped t s1)
      then have "history s' = history s @ [Run_me (get_future t)]" "m_queue s' = m_queue s"
        "length (heap s') = length (heap s)"
        using run_me_fields[of t s] by simp_all
      with eq show ?thesis by (intro fifoI[OF _ _ _ _ assms(1)]) simp_all
    qed (use eq in \<open>intro fifoI[OF _ _ _ _ assms(1)]; simp\<close>)+
  next
    case (wake i)
    with eq show ?thesis by (intro fifoI[OF _ _ _ _ assms(1)]) simp_all
  next
    case destroy
    from destroy(3) eq show ?thesis
      by (cases rule: destroy_elim) (intro fifoI[OF _ _ _ _ assms(1)]; simp)+
  qed
qed

lemma fifo_reachable:
  fixes evs :: "('a, 'r) event list" and s :: "'r state"
  assumes "ThreadPool reserve_ok spawn_ok num_threads = Constructed s0"
    and "run evs s0 = Some s"
  shows "fifo s"
  using assms(2)
proof (rule run_induct)
  from assms(1) show "fifo s0"
    by (simp add: ThreadPool_Constructed_iff fifo_def)
qed (rule fifo_step)

subsection \<open>What a future delivers\<close>

lemma future_get_deliver:
  "h < length hp \<Longrightarrow> future_get (s\<lparr>heap := hp[h := deliver out]\<rparr>) h = Got out"
  by (cases out) (simp_all add: future_get_def)

lemma future_get_store:
  "heap s' = (heap s)[k := v] \<Longrightarrow> k \<noteq> h \<Longrightarrow> future_get s' h = future_get s h"
  by (simp add: future_get_def)

lemma deliversI:
  assumes "delivers h out s"
    and "length (heap s) \<le> length (heap s')"
    and "set (in_flight s') \<subseteq> set (in_flight s)"
    and "future_get s' h = future_get s h \<or> future_get s' h = Got out"
  shows "delivers h out s'"
  using assms unfolding delivers_def list_all_iff by auto

lemma delivers_submit:
  assumes "delivers h out s"
  shows "delivers h out (snd (submit flt func args s))"
proof (cases "submit flt func args s")
  case (Pair r s')
  from assms have h: "h < length (heap s)" by (simp add: delivers_def)
  from Pair have "delivers h out s'"
  proof (cases rule: submit_elim)
    case no_task
    with assms show ?thesis by simp
  next
    case no_push
    with h show ?thesis
      by (intro deliversI[OF assms]) (simp_all add: in_flight_def future_get_def nth_append)
  next
    case (pushed t)
    from pushed(6) h have g: "future_get s' h = future_get s h"
      by (simp add: future_get_def nth_append)
    from pushed(6) have fl: "set (in_flight s') = insert t (set (in_flight s))"
      by (auto simp: in_flight_def)
    from assms h pushed(3) g show ?thesis
      unfolding delivers_def list_all_iff fl using pushed(6) by auto
  qed
  with Pair show ?thesis by simp
qed

lemma delivers_step:
  assumes ok: "inflight_ok s" and del: "delivers h out s" and st: "step ev s = Some s'"
  shows "delivers h out s'"
  using st
proof (cases rule: step_elim)
  case (submit flt func args)
  with del show ?thesis by (simp add: delivers_submit)
next
  case (worker i)
  from worker(3) show ?thesis
  proof (cases rule: wait_for_work_elim)
    case leave
    then show ?thesis
      by (intro deliversI[OF del]) (simp_all add: in_flight_def held_set_pc_same future_get_def)
  next
    case enter
    then show ?thesis
      by (intro deliversI[OF del]) (simp_all add: in_flight_def held_set_pc_same future_get_def)
  next
    case sleep
    then show ?thesis
      by (intro deliversI[OF del]) (simp_all add: in_flight_def held_set_pc_same future_get_def)
  next
    case nullopt
    then show ?thesis
      by (intro deliversI[OF del]) (simp_all add: in_flight_def held_set_pc_same future_get_def)
  next
    case (pop t rest)
    then have "mset (in_flight s') = mset (in_flight s)"
      by (simp add: in_flight_def held_set_pc held_split[of i "m_threads s"])
    then have "set (in_flight s') = set (in_flight s)" by (rule mset_eq_setD)
    with pop show ?thesis
      by (intro deliversI[OF del]) (simp_all add: future_get_def)
  next
    case (ran t s1)
    from ok ran(1,2) have p: "pending s t" by (rule inflight_ok_ran)
    with ran(3) have s1: "s1 = s\<lparr>history := history s @ [Run_me (get_future t)],
              heap := (heap s)[get_future t := deliver (stored_task (m_task t) ())]\<rparr>"
      by (simp add: run_me_pending)
    from ran(1,2) have fl: "in_flight s = m_queue s @ held (take i (m_threads s)) @ [t] @
        held (drop (Suc i) (m_threads s))"
      by (simp add: in_flight_def held_split[of i "m_threads s"])
    from ran(1) have fl': "in_flight s' = m_queue s @ held (take i (m_threads s)) @
        held (drop (Suc i) (m_threads s))"
      unfolding ran(4) s1 by (simp add: in_flight_def held_set_pc)
    have sub: "set (in_flight s') \<subseteq> set (in_flight s)"
      unfolding fl fl' by auto
    have len: "length (heap s) \<le> length (heap s')"
      unfolding ran(4) s1 by simp
    have "future_get s' h = future_get s h \<or> future_get s' h = Got out"
    proof (cases "get_future t = h")
      case True
      from fl have "t \<in> set (in_flight s)" by simp
      with del True have "stored_task (m_task t) () = out"
        by (auto simp: delivers_def list_all_iff)
      moreover from del have "h < length (heap s)" by (simp add: delivers_def)
      ultimately have "future_get s' h = Got out"
        unfolding ran(4) s1 using True by (cases out) (simp_all add: future_get_def)
      then show ?thesis ..
    next
      case False
      have "heap s' = (heap s)[get_future t := deliver (stored_task (m_task t) ())]"
        unfolding ran(4) s1 by simp
      from this False have "future_get s' h = future_get s h" by (rule future_get_store)
      then show ?thesis ..
    qed
    with del len sub show ?thesis by (rule deliversI)
  next
    case (caught t w s1)
    from ok caught(1,2) have "pending s t" by (rule inflight_ok_ran)
    with caught(3) show ?thesis by (simp add: run_me_pending)
  next
    case (escaped t s1)
    from ok escaped(1,2) have "pending s t" by (rule inflight_ok_ran)
    with escaped(3) show ?thesis by (simp add: run_me_pending)
  next
    case block
    then show ?thesis
      by (intro deliversI[OF del]) (simp_all add: in_flight_def held_set_pc_same future_get_def)
  next
    case print
    then show ?thesis
      by (intro deliversI[OF del]) (simp_all add: in_flight_def held_set_pc_same future_get_def)
  qed
next
  case (wake i)
  then show ?thesis
    by (intro deliversI[OF del]) (simp_all add: in_flight_def held_set_pc_same future_get_def)
next
  case destroy
  from destroy(3) show ?thesis
    by (cases rule: destroy_elim)
       (intro deliversI[OF del]; simp add: in_flight_def held_update_same future_get_def)+
qed

lemma delivers_run:
  fixes evs :: "('a, 'r) event list" and s :: "'r state"
  assumes "inflight_ok s" and "delivers h out s" and "run evs s = Some s'"
  shows "inflight_ok s' \<and> delivers h out s'"
  using assms(3)
proof (rule run_induct)
  from assms(1,2) show "inflight_ok s \<and> delivers h out s" ..
next
  fix ev :: "('a, 'r) event" and x x' :: "'r state"
  assume "inflight_ok x \<and> delivers h out x" and "step ev x = Some x'"
  then show "inflight_ok x' \<and> delivers h out x'"
    by (blast intro: inflight_ok_step delivers_step)
qed


lemma quiet_submit:
  assumes "quiet s"
  shows "quiet (snd (submit flt func args s))"
  using assms inflight_ok_submit[of s flt func args] returned_submit[of s flt func args]
  by (simp add: quiet_def)

lemma quiet_run:
  fixes evs :: "('a, 'r) event list" and s :: "'r state"
  assumes "quiet s" and "run evs s = Some s'"
  shows "quiet s'"
  using assms(2,1) by (rule run_induct) (rule quiet_step)

lemma delivers_after_submit:
  assumes ok: "inflight_ok s" and sub: "submit No_fault func args s = (r, s1)"
  shows "\<exists>t. r = Inr (get_future t) \<and> m_queue s1 = m_queue s @ [t] \<and>
    future_get s1 (get_future t) = Not_ready \<and> delivers (get_future t) (func (std_tuple args)) s1"
  using sub
proof (cases rule: submit_elim)
  case (pushed t)
  from ok have old: "\<forall>u \<in> set (in_flight s). get_future u < length (heap s)"
    by (simp add: inflight_ok_iff pending_iff)
  from pushed(6) have fl: "set (in_flight s1) = insert t (set (in_flight s))"
    by (auto simp: in_flight_def)
  from pushed(3,6) have nr: "future_get s1 (get_future t) = Not_ready"
    by (simp add: future_get_def)
  from pushed(3,6) have len: "get_future t < length (heap s1)" by simp
  from old pushed(3,4) have "\<forall>u \<in> set (in_flight s1). get_future u = get_future t \<longrightarrow>
      stored_task (m_task u) () = func (std_tuple args)"
    unfolding fl by auto
  with nr len have "delivers (get_future t) (func (std_tuple args)) s1"
    by (simp add: delivers_def list_all_iff)
  with pushed(5,6) nr show ?thesis by auto
qed simp_all

subsection \<open>The destructor\<close>

lemma joinable_notify_one [simp]:
  "j < length ts \<Longrightarrow> joinable (notify_one ts ! j) = joinable (ts ! j)"
proof (induction ts arbitrary: j)
  case Nil
  then show ?case by simp
next
  case (Cons th ts)
  then show ?case by (cases j) auto
qed

lemma nth_notify_all: "j < length ts \<Longrightarrow> notify_all ts ! j = wake (ts ! j)"
  by (simp add: notify_all_def)

lemma not_waiting_wake [simp]: "\<not> is_waiting (wake th)"
  by (auto split: pc.splits)

lemma length_threads_step:
  assumes "step ev s = Some s'"
  shows "length (m_threads s') = length (m_threads s)"
  using assms
proof (cases rule: step_elim)
  case (submit flt func args)
  obtain r s1 where sub: "submit flt func args s = (r, s1)" by force
  with submit(4) have s': "s' = s1" by simp
  from sub show ?thesis unfolding s' by (cases rule: submit_elim) simp_all
next
  case (worker i)
  from worker(3) show ?thesis
  proof (cases rule: wait_for_work_elim)
    case (ran t s1)
    with run_me_fields(3)[of t s] show ?thesis by simp
  next
    case (caught t w s1)
    with run_me_fields(3)[of t s] show ?thesis by simp
  next
    case (escaped t s1)
    with run_me_fields(3)[of t s] show ?thesis by simp
  qed simp_all
next
  case (wake i)
  then show ?thesis by simp
next
  case destroy
  from destroy(3) show ?thesis by (cases rule: destroy_elim) simp_all
qed

lemma shutting_down_set_pc:
  assumes sd: "shutting_down s" and i: "i < length (m_threads s)"
    and old: "pc (m_threads s ! i) \<noteq> Returned"
    and rest: "m_done s' = m_done s" "owner s' = owner s"
      "destroy_actions (history s') = destroy_actions (history s)"
      "m_threads s' = m_threads (set_pc i p s)"
  shows "shutting_down s'"
proof (cases "owner s")
  case Alive
  with sd i rest show ?thesis
    by (auto simp: shutting_down_def nth_set_pc)
next
  case Notifying
  with sd i rest show ?thesis
    by (auto simp: shutting_down_def nth_set_pc)
next
  case (Joining k)
  with sd have inv: "m_done s" "k \<le> length (m_threads s)"
    "destroy_actions (history s) = Set_done # Notify_all # map Join [0..<k]"
    and each: "\<And>j. j < length (m_threads s) \<Longrightarrow>
       (if j < k then pc (m_threads s ! j) = Returned \<and> \<not> joinable (m_threads s ! j)
        else joinable (m_threads s ! j))"
    by (simp_all add: shutting_down_def)
  from each[OF i] old have ik: "\<not> i < k" by auto
  have "if j < k then pc (m_threads s' ! j) = Returned \<and> \<not> joinable (m_threads s' ! j)
        else joinable (m_threads s' ! j)" if j: "j < length (m_threads s)" for j
  proof (cases "j = i")
    case True
    with each[OF i] ik i show ?thesis
      unfolding rest(4) by (simp add: nth_set_pc)
  next
    case False
    with each[OF j] j show ?thesis
      unfolding rest(4) by (simp add: nth_set_pc)
  qed
  then have "\<forall>j < length (m_threads s').
       (if j < k then pc (m_threads s' ! j) = Returned \<and> \<not> joinable (m_threads s' ! j)
        else joinable (m_threads s' ! j))"
    unfolding rest(4) by simp
  moreover from inv rest have "k \<le> length (m_threads s')" by simp
  ultimately show ?thesis
    using inv rest(1,2,3) Joining unfolding shutting_down_def by simp
next
  case Destroyed
  with sd i old show ?thesis
    by (simp add: shutting_down_def)
qed

lemma is_waiting_joinable [simp]: "is_waiting (th\<lparr>joinable := b\<rparr>) = is_waiting th"
  by simp

lemma shutting_down_cong:
  "m_done s' = m_done s \<Longrightarrow> owner s' = owner s \<Longrightarrow> m_threads s' = m_threads s \<Longrightarrow>
   destroy_actions (history s') = destroy_actions (history s) \<Longrightarrow>
   shutting_down s' = shutting_down s"
  by (simp add: shutting_down_def split: owner_pc.splits)

lemma shutting_down_submit:
  assumes "shutting_down s" and "owner s = Alive"
  shows "shutting_down (snd (submit flt func args s))"
proof (cases "submit flt func args s")
  case (Pair r s')
  from Pair have "shutting_down s'"
  proof (cases rule: submit_elim)
    case no_task
    with assms show ?thesis by simp
  next
    case no_push
    with assms show ?thesis by (simp add: shutting_down_def)
  next
    case (pushed t)
    with assms show ?thesis by (simp add: shutting_down_def)
  qed
  with Pair show ?thesis by simp
qed

lemma shutting_down_wait_for_work:
  assumes sd: "shutting_down s" and w: "wait_for_work i s = Some s'"
  shows "shutting_down s'"
  using w
proof (cases rule: wait_for_work_elim)
  case leave
  with sd show ?thesis
    by (intro shutting_down_set_pc[OF sd, where i = i and p = "Returned"]) simp_all
next
  case enter
  with sd show ?thesis
    by (intro shutting_down_set_pc[OF sd, where i = i and p = "In_try_pop"]) simp_all
next
  case sleep
  with sd show ?thesis
    by (intro shutting_down_set_pc[OF sd, where i = i and p = "About_to_wait"]) simp_all
next
  case block
  with sd show ?thesis
    by (intro shutting_down_set_pc[OF sd, where i = i and p = "Waiting"]) simp_all
next
  case print
  with sd show ?thesis
    by (intro shutting_down_set_pc[OF sd, where i = i and p = "At_guard"]) (simp_all add: set_pc_def)
next
  case nullopt
  with sd show ?thesis
    by (intro shutting_down_set_pc[OF sd, where i = i and p = "At_guard"]) simp_all
next
  case (pop t rest)
  with sd show ?thesis
    by (intro shutting_down_set_pc[OF sd, where i = i and p = "Has_task t"]) (simp_all add: set_pc_def)
next
  case (ran t s1)
  with sd run_me_fields[of t s] show ?thesis
    by (intro shutting_down_set_pc[OF sd, where i = i and p = "At_guard"]) (simp_all add: set_pc_def)
next
  case (caught t w s1)
  with sd run_me_fields[of t s] show ?thesis
    by (intro shutting_down_set_pc[OF sd, where i = i and p = "Caught"]) (simp_all add: set_pc_def)
next
  case (escaped t s1)
  with run_me_fields[of t s] have "shutting_down s' = shutting_down s"
    by (intro shutting_down_cong) simp_all
  with sd show ?thesis by simp
qed

lemma upt_Suc_snoc: "map Join [0..<Suc i] = map Join [0..<i] @ [Join i]"
  by simp

lemma shutting_down_destroy:
  assumes sd: "shutting_down s" and d: "destroy s = Some s'"
  shows "shutting_down s'"
  using d
proof (cases rule: destroy_elim)
  case set_done
  with sd show ?thesis by (simp add: shutting_down_def)
next
  case notify
  with sd show ?thesis
    by (simp add: shutting_down_def nth_notify_all del: wake.simps is_waiting.simps)
next
  case (join i)
  with sd show ?thesis
    by (auto simp: shutting_down_def nth_list_update less_Suc_eq simp del: is_waiting.simps)
next
  case (skip i)
  with sd show ?thesis by (auto simp: shutting_down_def)
next
  case (finish i)
  with sd show ?thesis by (auto simp: shutting_down_def simp del: is_waiting.simps)
qed

lemma shutting_down_step:
  assumes "shutting_down s" and "step ev s = Some s'"
  shows "shutting_down s'"
  using assms(2)
proof (cases rule: step_elim)
  case (submit flt func args)
  with assms(1) show ?thesis by (simp add: shutting_down_submit)
next
  case (worker i)
  with assms(1) show ?thesis by (blast intro: shutting_down_wait_for_work)
next
  case (wake i)
  with assms(1) show ?thesis
    by (intro shutting_down_set_pc[OF assms(1), where i = i and p = "In_try_pop"]) simp_all
next
  case destroy
  with assms(1) show ?thesis by (blast intro: shutting_down_destroy)
qed

lemma shutting_down_reachable:
  fixes evs :: "('a, 'r) event list" and s :: "'r state"
  assumes "ThreadPool reserve_ok spawn_ok num_threads = Constructed s0"
    and "run evs s0 = Some s"
  shows "shutting_down s \<and> length (m_threads s) = unat num_threads"
  using assms(2)
proof (rule run_induct)
  from assms(1) show "shutting_down s0 \<and> length (m_threads s0) = unat num_threads"
    by (simp add: ThreadPool_Constructed_iff shutting_down_def new_thread_def)
next
  fix ev :: "('a, 'r) event" and x x' :: "'r state"
  assume "shutting_down x \<and> length (m_threads x) = unat num_threads" and "step ev x = Some x'"
  then show "shutting_down x' \<and> length (m_threads x') = unat num_threads"
    using shutting_down_step length_threads_step by metis
qed

lemma replicate_2: "replicate 2 x = [x, x]"
  by (simp add: numeral_2_eq_2)

lemma upt_0_2: "[0..<2] = [0, Suc 0]"
  by (simp add: numeral_2_eq_2)

subsection \<open>A pool without threads\<close>

lemma no_worker_step:
  assumes "no_worker s" and "step ev s = Some s'"
  shows "no_worker s'"
  using assms(2)
proof (cases rule: step_elim)
  case (submit flt func args)
  obtain r s1 where sub: "submit flt func args s = (r, s1)" by force
  with submit(4) have s': "s' = s1" by simp
  from sub assms(1) show ?thesis unfolding s'
    by (cases rule: submit_elim) (simp_all add: no_worker_def)
next
  case (worker i)
  with assms(1) show ?thesis by (simp add: wait_for_work_def no_worker_def)
next
  case (wake i)
  with assms(1) show ?thesis by (simp add: no_worker_def)
next
  case destroy
  from destroy(3) assms(1) show ?thesis
    by (cases rule: destroy_elim) (simp_all add: no_worker_def notify_all_def)
qed

lemma no_worker_run:
  fixes evs :: "('a, 'r) event list" and s :: "'r state"
  assumes "run evs (constructed 0) = Some s"
  shows "no_worker s"
  using assms
proof (rule run_induct)
  show "no_worker (constructed 0 :: 'r state)"
    by (simp add: no_worker_def)
qed (rule no_worker_step)

lemma destroy_no_worker:
  fixes s :: "'r state"
  assumes "no_worker s" and "owner s = Alive"
  shows "\<exists>s'. run [Destroy, Destroy, Destroy :: ('a, 'r) event] s = Some s' \<and>
    owner s' = Destroyed \<and> m_queue s' = m_queue s \<and> heap s' = heap s"
  using assms by (simp add: no_worker_def step_def destroy_def notify_all_def)

subsection \<open>What the future of a call delivers\<close>

text \<open>
  In every state a constructed pool reaches, \<open>submit\<close> with no fault returns the future of
  a task it has appended to the queue, not ready then.  In every run from there the
  future is not ready or delivers the outcome of the callable called with the elements of
  the tuple stored at submission, whatever has happened since, and a worker that holds
  the task makes it deliver that outcome.
\<close>

lemma submit_delivers:
  fixes evs :: "('a, 'r) event list" and s0 s s1 :: "'r state" and func :: "'b arg list \<Rightarrow> 'r outcome"
  assumes "ThreadPool reserve_ok spawn_ok num_threads = Constructed s0"
    and "run evs s0 = Some s"
    and "submit No_fault func args s = (r, s1)"
  shows "\<exists>t. r = Inr (get_future t) \<and> m_queue s1 = m_queue s @ [t] \<and>
    future_get s1 (get_future t) = Not_ready \<and>
    (\<forall>(evs' :: ('a, 'r) event list) s3. run evs' s1 = Some s3 \<longrightarrow>
       (future_get s3 (get_future t) = Not_ready \<or>
        future_get s3 (get_future t) = Got (func (std_tuple args))) \<and>
       (\<forall>i. i < length (m_threads s3) \<longrightarrow> pc (m_threads s3 ! i) = Has_task t \<longrightarrow>
          (\<exists>s4. step (Worker i :: ('a, 'r) event) s3 = Some s4 \<and>
             future_get s4 (get_future t) = Got (func (std_tuple args)))))"
proof -
  from assms(1,2) have q: "quiet s" by (rule quiet_reachable)
  then have ok: "inflight_ok s" by (simp add: quiet_def)
  from quiet_submit[OF q, of No_fault func args] assms(3) have q1: "quiet s1" by simp
  then have ok1: "inflight_ok s1" by (simp add: quiet_def)
  from delivers_after_submit[OF ok assms(3)] obtain t where
    t: "r = Inr (get_future t)" "m_queue s1 = m_queue s @ [t]"
       "future_get s1 (get_future t) = Not_ready"
    and del: "delivers (get_future t) (func (std_tuple args)) s1"
    by blast
  have "(future_get s3 (get_future t) = Not_ready \<or>
        future_get s3 (get_future t) = Got (func (std_tuple args))) \<and>
       (\<forall>i. i < length (m_threads s3) \<longrightarrow> pc (m_threads s3 ! i) = Has_task t \<longrightarrow>
          (\<exists>s4. step (Worker i :: ('a, 'r) event) s3 = Some s4 \<and>
             future_get s4 (get_future t) = Got (func (std_tuple args))))"
    if r3: "run evs' s1 = Some s3" for evs' :: "('a, 'r) event list" and s3
  proof -
    from ok1 del r3 have d3: "delivers (get_future t) (func (std_tuple args)) s3"
      using delivers_run by blast
    from q1 r3 have q3: "quiet s3" by (rule quiet_run)
    have "\<exists>s4. step (Worker i :: ('a, 'r) event) s3 = Some s4 \<and>
             future_get s4 (get_future t) = Got (func (std_tuple args))"
      if i: "i < length (m_threads s3)" and pc: "pc (m_threads s3 ! i) = Has_task t" for i
    proof -
      from i pc have "t \<in> set (in_flight s3)"
        by (simp add: in_flight_def held_split[of i "m_threads s3"])
      with d3 have "stored_task (m_task t) () = func (std_tuple args)"
        by (auto simp: delivers_def list_all_iff)
      with worker_runs_task_stores[OF q3 i pc, where ?'a = 'a] show ?thesis by auto
    qed
    with d3 show ?thesis by (auto simp: delivers_def)
  qed
  with t show ?thesis by blast
qed

subsection \<open>\<open>try_pop\<close> under the lock\<close>

text \<open>
  The body of \<open>try_pop\<close> is blocked exactly when the flag is unset and the queue is empty;
  with the flag set it returns no task, whatever the queue holds; otherwise it removes
  and returns the head.  The tasks queued when the flag is set stay queued in every run
  from there, and their futures never become ready.
\<close>

lemma try_pop_under_the_lock:
  "(try_pop s = Blocked \<longleftrightarrow> \<not> m_done s \<and> m_queue s = []) \<and>
   (m_done s \<longrightarrow> try_pop s = Popped None s) \<and>
   (\<not> m_done s \<longrightarrow> m_queue s = front # rest \<longrightarrow>
      try_pop s = Popped (Some front) (s\<lparr>m_queue := rest, history := history s @ [Dequeue front]\<rparr>)) \<and>
   (m_done s \<longrightarrow> inflight_ok s \<longrightarrow> run evs s = Some s' \<longrightarrow>
      (\<exists>more. m_queue s' = m_queue s @ more) \<and>
      dequeued (history s') = dequeued (history s) \<and>
      (\<forall>t \<in> set (m_queue s). pending s' t))"
proof -
  have "(\<exists>more. m_queue s' = m_queue s @ more) \<and>
      dequeued (history s') = dequeued (history s) \<and>
      (\<forall>t \<in> set (m_queue s). pending s' t)"
    if d: "m_done s" and ok: "inflight_ok s" and r: "run evs s = Some s'"
  proof -
    from d r have q: "(\<exists>more. m_queue s' = m_queue s @ more)"
      and h: "dequeued (history s') = dequeued (history s)"
      using run_done_queue by blast+
    from ok r have "inflight_ok s'" by (rule inflight_ok_run)
    with q have "\<forall>t \<in> set (m_queue s). pending s' t"
      by (auto simp: inflight_ok_iff in_flight_def)
    with q h show ?thesis by blast
  qed
  then show ?thesis
    by (auto simp: try_pop_cases)
qed

section \<open>The claims\<close>

subsection \<open>C1: the queue is first-in, first-out\<close>

text \<open>
  C1.  In every state a constructed pool reaches, whatever the interleaving of submissions
  and worker steps, the tasks taken from the queue by \<open>try_pop\<close>, in the order they were
  taken, followed by the tasks still in the queue, are the tasks put in by \<open>add_task\<close>, in
  the order they were put in; no task has been taken twice; and a \<open>try_pop\<close> that returns a
  task returns the head of the queue and leaves a queue shorter by exactly one.
\<close>

theorem queue_is_fifo:
  fixes evs :: "('a, 'r) event list" and s0 s :: "'r state"
  assumes "ThreadPool reserve_ok spawn_ok num_threads = Constructed s0"
    and "run evs s0 = Some s"
  shows "enqueued (history s) = dequeued (history s) @ m_queue s \<and>
    distinct (map get_future (dequeued (history s))) \<and>
    distinct (dequeued (history s)) \<and>
    (\<forall>t s'. try_pop s = Popped (Some t) s' \<longrightarrow>
       m_queue s = t # m_queue s' \<and> Suc (length (m_queue s')) = length (m_queue s) \<and>
       dequeued (history s') = dequeued (history s) @ [t])"
proof -
  from assms have f: "fifo s" by (rule fifo_reachable)
  then have eq: "enqueued (history s) = dequeued (history s) @ m_queue s"
    and d: "distinct (map get_future (enqueued (history s)))"
    unfolding fifo_def by blast+
  from d have d1: "distinct (map get_future (dequeued (history s)))"
    unfolding eq by simp
  then have d2: "distinct (dequeued (history s))"
    by (simp add: distinct_map)
  have "\<forall>t s'. try_pop s = Popped (Some t) s' \<longrightarrow>
       m_queue s = t # m_queue s' \<and> Suc (length (m_queue s')) = length (m_queue s) \<and>
       dequeued (history s') = dequeued (history s) @ [t]"
    by (auto simp: try_pop_cases)
  with eq d1 d2 show ?thesis by blast
qed

theorem queue_is_fifo_witness:
  "ThreadPool True (\<lambda>_. True) 1 = Constructed (constructed 1 :: nat state) \<and>
   run [Submit No_fault square [Obj 3], Submit No_fault boom [Obj 4], Worker 0, Worker 0] (constructed 1) =
     Some (after [Submit No_fault square [Obj 3], Submit No_fault boom [Obj 4], Worker 0, Worker 0] 1) \<and>
   enqueued (history (after [Submit No_fault square [Obj 3], Submit No_fault boom [Obj 4], Worker 0, Worker 0] 1)) =
     [\<lparr>m_task = \<lparr>stored_task = (\<lambda>_. square (std_tuple [Obj 3])), shared = 0\<rparr>\<rparr>,
      \<lparr>m_task = \<lparr>stored_task = (\<lambda>_. boom (std_tuple [Obj 4])), shared = 1\<rparr>\<rparr>] \<and>
   dequeued (history (after [Submit No_fault square [Obj 3], Submit No_fault boom [Obj 4], Worker 0, Worker 0] 1)) =
     [\<lparr>m_task = \<lparr>stored_task = (\<lambda>_. square (std_tuple [Obj 3])), shared = 0\<rparr>\<rparr>] \<and>
   m_queue (after [Submit No_fault square [Obj 3], Submit No_fault boom [Obj 4], Worker 0, Worker 0] 1) =
     [\<lparr>m_task = \<lparr>stored_task = (\<lambda>_. boom (std_tuple [Obj 4])), shared = 1\<rparr>\<rparr>] \<and>
   try_pop (after [Submit No_fault square [Obj 3], Submit No_fault boom [Obj 4], Worker 0, Worker 0] 1) =
     Popped (Some \<lparr>m_task = \<lparr>stored_task = (\<lambda>_. boom (std_tuple [Obj 4])), shared = 1\<rparr>\<rparr>)
       ((after [Submit No_fault square [Obj 3], Submit No_fault boom [Obj 4], Worker 0, Worker 0] 1)
          \<lparr>m_queue := [],
           history :=
             history (after [Submit No_fault square [Obj 3], Submit No_fault boom [Obj 4], Worker 0, Worker 0] 1) @
             [Dequeue \<lparr>m_task = \<lparr>stored_task = (\<lambda>_. boom (std_tuple [Obj 4])), shared = 1\<rparr>\<rparr>]\<rparr>)"
proof -
  have a: "ThreadPool True (\<lambda>_. True) 1 = Constructed (constructed 1 :: nat state)"
    by (simp add: ThreadPool_Constructed_iff)
  have b: "run [Submit No_fault square [Obj 3], Submit No_fault boom [Obj 4], Worker 0, Worker 0] (constructed 1) =
     Some (after [Submit No_fault square [Obj 3], Submit No_fault boom [Obj 4], Worker 0, Worker 0] 1)"
    by (simp add: after_def pool_eval)
  from queue_is_fifo[OF a b] a b show ?thesis
    by (simp add: after_def pool_eval)
qed

subsection \<open>C2: \<open>submit\<close> and a single argument that is a pair\<close>

text \<open>
  C2.  The claim holds for the futures of all calls but those with a single argument that is
  a \<open>std::pair\<close> or a \<open>std::tuple\<close> (lemma \<open>submit_delivers\<close> says what the future of a call
  delivers).  For these it fails: a pool of one thread is given the callable that returns
  the number of its arguments and the single argument \<open>std::make_pair(1, 2)\<close>; the worker
  pops the task and runs it.  The callable applied to this argument returns 1, which is
  the type and value the future stands for; the future delivers 2, since the tuple
  stored at submission has the two elements of the pair and the callable is called with
  them.
\<close>

theorem submit_calls_callable_with_elements_of_pair:
  "submit No_fault count_args [StdPair (Obj 1) (Obj 2)] (constructed 1) =
     (Inr 0, after [Submit No_fault count_args [StdPair (Obj 1) (Obj 2)]] 1) \<and>
   run [Submit No_fault count_args [StdPair (Obj 1) (Obj 2)], Worker 0, Worker 0, Worker 0] (constructed 1) = Some (after [Submit No_fault count_args [StdPair (Obj 1) (Obj 2)], Worker 0, Worker 0, Worker 0] 1) \<and>
   future_get (after [Submit No_fault count_args [StdPair (Obj 1) (Obj 2)], Worker 0, Worker 0, Worker 0] 1) 0 = Got (Returns 2) \<and>
   count_args [StdPair (Obj 1) (Obj 2)] = Returns 1 \<and>
   future_get (after [Submit No_fault count_args [StdPair (Obj 1) (Obj 2)], Worker 0, Worker 0, Worker 0] 1) 0 \<noteq> Got (count_args [StdPair (Obj 1) (Obj 2)])"
  by (simp add: after_def pool_eval count_args_def)

subsection \<open>C3: no diagnostic for a failing task\<close>

text \<open>
  C3.  The claim fails on the code.  A pool of one thread is given a task that throws a
  \<open>std::exception\<close> with the message \<open>boom\<close>; the worker pops and runs it.  The failure
  is in the shared state of the future, the worker is back at its loop guard, and
  nothing has been printed: the packaged task has caught the failure, so the handler of
  \<open>wait_for_work\<close>, which is there to print the diagnostic, is never entered.
\<close>

theorem failing_task_prints_no_diagnostic:
  "run [Submit No_fault boom [Obj 3], Worker 0, Worker 0, Worker 0] (constructed 1) =
     Some (after [Submit No_fault boom [Obj 3], Worker 0, Worker 0, Worker 0] 1) \<and>
   future_get (after [Submit No_fault boom [Obj 3], Worker 0, Worker 0, Worker 0] 1) 0 =
     Got (Throws (StdException ''boom'')) \<and>
   pc (m_threads (after [Submit No_fault boom [Obj 3], Worker 0, Worker 0, Worker 0] 1) ! 0) = At_guard \<and>
   stdout (after [Submit No_fault boom [Obj 3], Worker 0, Worker 0, Worker 0] 1) = []"
  by (simp add: after_def pool_eval boom_def)

subsection \<open>C4: a construction that fails partway\<close>

text \<open>
  C4.  The claim holds for a construction in which every thread is created (the pool has
  exactly \<open>num_threads\<close> threads) and for one in which the first creation fails (the
  caller gets the \<open>ThreadPoolException\<close>).  It fails when a later creation fails: with two
  threads asked for and the second creation failing, the handler rethrows without setting
  \<open>m_done\<close> and without joining the first thread, the destructor of \<open>m_threads\<close> finds it
  joinable, and \<open>std::terminate\<close> is called.
\<close>

theorem constructor_failing_partway_calls_terminate:
  "(ThreadPool True (\<lambda>i. i < 1) 2 :: nat construction) = Terminate_called \<and>
   (ThreadPool True (\<lambda>i. False) 2 :: nat construction) =
     Construction_failed (ThreadPoolException constructor_failed) \<and>
   (ThreadPool True (\<lambda>i. True) 2 :: nat construction) = Constructed (constructed 2) \<and>
   length (m_threads (constructed 2 :: nat state)) = 2"
proof -
  have "\<not> (\<forall>j < unat (2 :: 32 word). j < (1 :: nat))"
    by (auto intro!: exI[of _ 1])
  then have partway: "(ThreadPool True (\<lambda>i. i < 1) 2 :: nat construction) = Terminate_called"
    by (simp add: ThreadPool_outcome)
  have first: "(ThreadPool True (\<lambda>i. False) 2 :: nat construction) =
     Construction_failed (ThreadPoolException constructor_failed)"
    by (auto simp: ThreadPool_outcome intro: exI[of _ 0])
  have none: "(ThreadPool True (\<lambda>i. True) 2 :: nat construction) = Constructed (constructed 2)"
    by (simp add: ThreadPool_outcome)
  have "length (m_threads (constructed 2 :: nat state)) = 2"
    by simp
  with partway first none show ?thesis by blast
qed

subsection \<open>C5: a worker asleep in \<open>try_pop\<close> with the shutdown flag set\<close>

text \<open>
  C5.  Under the lock \<open>try_pop\<close> does what the claim says (lemma
  \<open>try_pop_under_the_lock\<close>), but \<open>destroy\<close> sets the flag and notifies without the lock,
  and the claim fails: in a pool of one thread with an empty queue, the worker passes its
  loop guard and finds the wait predicate false; the destructor sets the flag and
  notifies all, which is nobody; the worker goes to sleep.  Now the flag is set and the
  worker is blocked in \<open>try_pop\<close>: it has no step, the join of the destructor is not
  enabled, and \<open>try_pop\<close> would return no task if it were evaluated.
\<close>

theorem worker_sleeps_in_try_pop_with_flag_set:
  "run [Worker 0, Worker 0] (constructed 1) = Some (after [Worker 0, Worker 0] 1) \<and>
   \<not> m_done (after [Worker 0, Worker 0] 1) \<and>
   pc (m_threads (after [Worker 0, Worker 0] 1) ! 0) = About_to_wait \<and>
   run [Worker 0, Worker 0, Destroy, Destroy] (constructed 1) =
     Some (after [Worker 0, Worker 0, Destroy, Destroy] 1) \<and>
   m_done (after [Worker 0, Worker 0, Destroy, Destroy] 1) \<and>
   destroy_actions (history (after [Worker 0, Worker 0, Destroy, Destroy] 1)) =
     [Set_done, Notify_all] \<and>
   pc (m_threads (after [Worker 0, Worker 0, Destroy, Destroy] 1) ! 0) = About_to_wait \<and>
   run [Worker 0, Worker 0, Destroy, Destroy, Worker 0] (constructed 1) = Some (after [Worker 0, Worker 0, Destroy, Destroy, Worker 0] 1) \<and>
   m_done (after [Worker 0, Worker 0, Destroy, Destroy, Worker 0] 1) \<and>
   pc (m_threads (after [Worker 0, Worker 0, Destroy, Destroy, Worker 0] 1) ! 0) = Waiting \<and>
   step (Worker 0 :: (nat, nat) event) (after [Worker 0, Worker 0, Destroy, Destroy, Worker 0] 1) = None \<and>
   owner (after [Worker 0, Worker 0, Destroy, Destroy, Worker 0] 1) = Joining 0 \<and>
   step (Destroy :: (nat, nat) event) (after [Worker 0, Worker 0, Destroy, Destroy, Worker 0] 1) = None \<and>
   try_pop (after [Worker 0, Worker 0, Destroy, Destroy, Worker 0] 1) = Popped None (after [Worker 0, Worker 0, Destroy, Destroy, Worker 0] 1)"
  by (simp add: after_def pool_eval try_pop_def)

subsection \<open>C6: a \<open>submit\<close> that fails\<close>

text \<open>
  C6.  When the construction of the task or the enqueueing throws, \<open>submit\<close> fails with the
  \<open>ThreadPoolException\<close> of \<open>adding_task_failed\<close>; the queue, the threads, the shutdown
  flag, the output and the trace are as before, as is every future that existed; a pool
  in which no failure had escaped is still such a pool; and a following \<open>submit\<close> with no
  fault succeeds and appends its task to the unchanged queue.
\<close>

theorem failed_submit_leaves_pool_usable:
  assumes "flt \<noteq> No_fault" and "submit flt func args s = (r, s')"
  shows "r = Inl (ThreadPoolException adding_task_failed) \<and>
    m_queue s' = m_queue s \<and> m_threads s' = m_threads s \<and> m_done s' = m_done s \<and>
    owner s' = owner s \<and> terminated s' = terminated s \<and> stdout s' = stdout s \<and>
    history s' = history s \<and>
    (\<forall>h < length (heap s). future_get s' h = future_get s h) \<and>
    (quiet s \<longrightarrow> quiet s') \<and>
    (\<exists>t s''. submit No_fault func' args' s' = (Inr (get_future t), s'') \<and>
       m_queue s'' = m_queue s @ [t] \<and> stored_task (m_task t) () = func' (std_tuple args') \<and>
       future_get s'' (get_future t) = Not_ready)"
proof -
  from quiet_submit[of s flt func args] assms(2) have q: "quiet s \<longrightarrow> quiet s'"
    by simp
  obtain r2 s2 where sub2: "submit No_fault func' args' s' = (r2, s2)" by force
  then have next_ok: "\<exists>t. r2 = Inr (get_future t) \<and> m_queue s2 = m_queue s' @ [t] \<and>
       stored_task (m_task t) () = func' (std_tuple args') \<and> future_get s2 (get_future t) = Not_ready"
    by (cases rule: submit_elim) (auto simp: future_get_def)
  from assms(2,1) q next_ok sub2 show ?thesis
    by (cases rule: submit_elim) (auto simp: future_get_def nth_append)
qed

theorem failed_submit_leaves_pool_usable_witness:
  "Fault_push \<noteq> No_fault \<and>
   submit Fault_push square [Obj 3] (after [Submit No_fault boom [Obj 1]] 1) =
     (Inl (ThreadPoolException adding_task_failed),
      (after [Submit No_fault boom [Obj 1]] 1)
        \<lparr>heap := heap (after [Submit No_fault boom [Obj 1]] 1) @ [Pending]\<rparr>) \<and>
   m_queue (after [Submit No_fault boom [Obj 1], Submit Fault_push square [Obj 3]] 1) =
     m_queue (after [Submit No_fault boom [Obj 1]] 1) \<and>
   m_queue (after [Submit No_fault boom [Obj 1]] 1) =
     [\<lparr>m_task = \<lparr>stored_task = (\<lambda>_. boom (std_tuple [Obj 1])), shared = 0\<rparr>\<rparr>] \<and>
   quiet (after [Submit No_fault boom [Obj 1]] 1) \<and>
   submit No_fault square [Obj 4]
     ((after [Submit No_fault boom [Obj 1]] 1)\<lparr>heap := heap (after [Submit No_fault boom [Obj 1]] 1) @ [Pending]\<rparr>) =
     (Inr 2, after [Submit No_fault boom [Obj 1], Submit Fault_push square [Obj 3], Submit No_fault square [Obj 4]] 1) \<and>
   m_queue (after [Submit No_fault boom [Obj 1], Submit Fault_push square [Obj 3], Submit No_fault square [Obj 4]] 1) =
     [\<lparr>m_task = \<lparr>stored_task = (\<lambda>_. boom (std_tuple [Obj 1])), shared = 0\<rparr>\<rparr>,
      \<lparr>m_task = \<lparr>stored_task = (\<lambda>_. square (std_tuple [Obj 4])), shared = 2\<rparr>\<rparr>]"
proof -
  have a: "Fault_push \<noteq> No_fault" by simp
  have b: "submit Fault_push square [Obj 3] (after [Submit No_fault boom [Obj 1]] 1) =
     (Inl (ThreadPoolException adding_task_failed),
      (after [Submit No_fault boom [Obj 1]] 1)
        \<lparr>heap := heap (after [Submit No_fault boom [Obj 1]] 1) @ [Pending]\<rparr>)"
    by (simp add: after_def pool_eval)
  from failed_submit_leaves_pool_usable[OF a b, of square "[Obj 4]"] a b show ?thesis
    by (simp add: after_def pool_eval quiet_def inv_eval)
qed

subsection \<open>C7: the shutdown flag\<close>

text \<open>
  C7.  The shutdown flag \<open>m_done\<close> is false in a pool that has just been constructed, and
  once it is true no step of any thread (a \<open>submit\<close>, a step of a worker, a wake-up, a
  step of the destructor) and no run of such steps makes it false again.
\<close>

theorem shutdown_flag_never_reverts:
  "(ThreadPool reserve_ok spawn_ok num_threads = Constructed s0 \<longrightarrow> \<not> m_done s0) \<and>
   (m_done s \<longrightarrow> step ev s = Some s' \<longrightarrow> m_done s') \<and>
   (m_done s \<longrightarrow> run evs s = Some s'' \<longrightarrow> m_done s'')"
  by (auto simp: ThreadPool_Constructed_iff intro: step_done run_done)

theorem shutdown_flag_never_reverts_witness:
  "ThreadPool True (\<lambda>_. True) 1 = Constructed (constructed 1 :: nat state) \<and>
   \<not> m_done (constructed 1 :: nat state) \<and>
   m_done (the (run [Destroy :: (nat, nat) event] (constructed 1))) \<and>
   step (Worker 0 :: (nat, nat) event) (the (run [Destroy :: (nat, nat) event] (constructed 1))) =
     Some (the (run [Destroy, Worker 0 :: (nat, nat) event] (constructed 1))) \<and>
   m_done (the (run [Destroy, Worker 0 :: (nat, nat) event] (constructed 1))) \<and>
   run [Worker 0, Destroy :: (nat, nat) event] (the (run [Destroy :: (nat, nat) event] (constructed 1))) =
     Some (the (run [Destroy, Worker 0, Destroy :: (nat, nat) event] (constructed 1))) \<and>
   m_done (the (run [Destroy, Worker 0, Destroy :: (nat, nat) event] (constructed 1)))"
  using shutdown_flag_never_reverts[of True "\<lambda>_. True" 1 "constructed 1 :: nat state"
      "the (run [Destroy :: (nat, nat) event] (constructed 1))" "Worker 0 :: (nat, nat) event"
      "the (run [Destroy, Worker 0 :: (nat, nat) event] (constructed 1))"
      "[Worker 0, Destroy :: (nat, nat) event]"
      "the (run [Destroy, Worker 0, Destroy :: (nat, nat) event] (constructed 1))"]
  by (simp add: pool_eval ThreadPool_Constructed_iff)

subsection \<open>C8: the destructor\<close>

text \<open>
  C8.  In every state a constructed pool reaches: before the destructor starts, no action
  of \<open>destroy\<close> is in the trace, and its first step sets the shutdown flag; its second
  step, with the flag set, is \<open>notify_all\<close>, which leaves no thread asleep on the
  condition variable; then it joins the threads in order, and the join of thread \<open>i\<close> is
  not enabled before thread \<open>i\<close> has returned from \<open>wait_for_work\<close>; when the destructor
  has completed, the actions of \<open>destroy\<close> in the trace are: set the flag, notify all,
  join thread 0, ..., join the last thread, in this order, and every thread has returned
  and has been joined.
\<close>

theorem destroy_sets_flag_wakes_all_joins_all:
  fixes evs :: "('a, 'r) event list" and s0 s :: "'r state"
  assumes "ThreadPool reserve_ok spawn_ok num_threads = Constructed s0"
    and "run evs s0 = Some s"
  shows
    "(owner s = Alive \<longrightarrow>
        destroy_actions (history s) = [] \<and>
        (\<exists>s'. destroy s = Some s' \<and> m_done s' \<and> owner s' = Notifying)) \<and>
     (owner s = Notifying \<longrightarrow>
        m_done s \<and> destroy_actions (history s) = [Set_done] \<and>
        (\<exists>s'. destroy s = Some s' \<and> owner s' = Joining 0 \<and>
           m_threads s' = notify_all (m_threads s) \<and> \<not> list_ex is_waiting (m_threads s'))) \<and>
     (\<forall>i. owner s = Joining i \<longrightarrow>
        m_done s \<and>
        destroy_actions (history s) = Set_done # Notify_all # map Join [0..<i] \<and>
        (\<forall>j < i. pc (m_threads s ! j) = Returned \<and> \<not> joinable (m_threads s ! j)) \<and>
        (i < length (m_threads s) \<longrightarrow> pc (m_threads s ! i) \<noteq> Returned \<longrightarrow> destroy s = None) \<and>
        (i < length (m_threads s) \<longrightarrow> pc (m_threads s ! i) = Returned \<longrightarrow>
           (\<exists>s'. destroy s = Some s' \<and> owner s' = Joining (Suc i) \<and>
              \<not> joinable (m_threads s' ! i)))) \<and>
     (owner s = Destroyed \<longrightarrow>
        m_done s \<and>
        destroy_actions (history s) = Set_done # Notify_all # map Join [0..<unat num_threads] \<and>
        length (m_threads s) = unat num_threads \<and>
        (\<forall>th \<in> set (m_threads s). pc th = Returned \<and> \<not> joinable th))"
proof -
  from assms have sd: "shutting_down s" and len: "length (m_threads s) = unat num_threads"
    using shutting_down_reachable by blast+
  have alive: "destroy_actions (history s) = [] \<and>
        (\<exists>s'. destroy s = Some s' \<and> m_done s' \<and> owner s' = Notifying)"
    if "owner s = Alive"
    using sd that by (simp add: shutting_down_def destroy_def)
  have notifying: "m_done s \<and> destroy_actions (history s) = [Set_done] \<and>
        (\<exists>s'. destroy s = Some s' \<and> owner s' = Joining 0 \<and>
           m_threads s' = notify_all (m_threads s) \<and> \<not> list_ex is_waiting (m_threads s'))"
    if "owner s = Notifying"
    using sd that
    by (simp add: shutting_down_def destroy_def list_ex_iff notify_all_def
        del: wake.simps is_waiting.simps)
  have joining: "m_done s \<and>
        destroy_actions (history s) = Set_done # Notify_all # map Join [0..<i] \<and>
        (\<forall>j < i. pc (m_threads s ! j) = Returned \<and> \<not> joinable (m_threads s ! j)) \<and>
        (i < length (m_threads s) \<longrightarrow> pc (m_threads s ! i) \<noteq> Returned \<longrightarrow> destroy s = None) \<and>
        (i < length (m_threads s) \<longrightarrow> pc (m_threads s ! i) = Returned \<longrightarrow>
           (\<exists>s'. destroy s = Some s' \<and> owner s' = Joining (Suc i) \<and>
              \<not> joinable (m_threads s' ! i)))"
    if o: "owner s = Joining i" for i
  proof -
    from sd o have inv: "m_done s" "i \<le> length (m_threads s)"
      "destroy_actions (history s) = Set_done # Notify_all # map Join [0..<i]"
      and each: "\<forall>j < length (m_threads s).
         (if j < i then pc (m_threads s ! j) = Returned \<and> \<not> joinable (m_threads s ! j)
          else joinable (m_threads s ! j))"
      by (simp_all add: shutting_down_def)
    from each inv(2) have before: "\<forall>j < i. pc (m_threads s ! j) = Returned \<and>
        \<not> joinable (m_threads s ! j)"
      by auto
    from each have here: "i < length (m_threads s) \<longrightarrow> joinable (m_threads s ! i)"
      by auto
    from here o have blocked: "i < length (m_threads s) \<longrightarrow> pc (m_threads s ! i) \<noteq> Returned \<longrightarrow>
        destroy s = None"
      by (auto simp: destroy_def split: pc.splits)
    from here o have joined: "i < length (m_threads s) \<longrightarrow> pc (m_threads s ! i) = Returned \<longrightarrow>
           (\<exists>s'. destroy s = Some s' \<and> owner s' = Joining (Suc i) \<and>
              \<not> joinable (m_threads s' ! i))"
      by (auto simp: destroy_def)
    from inv before blocked joined show ?thesis by blast
  qed
  have destroyed: "m_done s \<and>
        destroy_actions (history s) = Set_done # Notify_all # map Join [0..<unat num_threads] \<and>
        length (m_threads s) = unat num_threads \<and>
        (\<forall>th \<in> set (m_threads s). pc th = Returned \<and> \<not> joinable th)"
    if o: "owner s = Destroyed"
  proof -
    from sd o have "m_done s"
      "destroy_actions (history s) = Set_done # Notify_all # map Join [0..<length (m_threads s)]"
      and each: "\<forall>j < length (m_threads s). pc (m_threads s ! j) = Returned \<and>
        \<not> joinable (m_threads s ! j)"
      by (simp_all add: shutting_down_def)
    moreover from each have "\<forall>th \<in> set (m_threads s). pc th = Returned \<and> \<not> joinable th"
      by (metis in_set_conv_nth)
    ultimately show ?thesis using len by simp
  qed
  from alive notifying joining destroyed show ?thesis by blast
qed

theorem destroy_sets_flag_wakes_all_joins_all_witness:
  "ThreadPool True (\<lambda>_. True) 2 = Constructed (constructed 2 :: nat state) \<and>
   run [Worker 0, Worker 0, Worker 0, Worker 1, Worker 1, Worker 1, Destroy] (constructed 2) = Some (after [Worker 0, Worker 0, Worker 0, Worker 1, Worker 1, Worker 1, Destroy] 2) \<and>
   owner (after [Worker 0, Worker 0, Worker 0, Worker 1, Worker 1, Worker 1, Destroy] 2) = Notifying \<and>
   list_all is_waiting (m_threads (after [Worker 0, Worker 0, Worker 0, Worker 1, Worker 1, Worker 1, Destroy] 2)) \<and>
   m_done (after [Worker 0, Worker 0, Worker 0, Worker 1, Worker 1, Worker 1, Destroy] 2) \<and>
   destroy_actions (history (after [Worker 0, Worker 0, Worker 0, Worker 1, Worker 1, Worker 1, Destroy] 2)) = [Set_done] \<and>
   \<not> list_ex is_waiting (notify_all (m_threads (after [Worker 0, Worker 0, Worker 0, Worker 1, Worker 1, Worker 1, Destroy] 2))) \<and>
   run [Worker 0, Worker 0, Worker 0, Worker 1, Worker 1, Worker 1, Destroy, Destroy, Worker 0, Worker 0, Destroy] (constructed 2) = Some (after [Worker 0, Worker 0, Worker 0, Worker 1, Worker 1, Worker 1, Destroy, Destroy, Worker 0, Worker 0, Destroy] 2) \<and>
   owner (after [Worker 0, Worker 0, Worker 0, Worker 1, Worker 1, Worker 1, Destroy, Destroy, Worker 0, Worker 0, Destroy] 2) = Joining 1 \<and>
   (1::nat) < length (m_threads (after [Worker 0, Worker 0, Worker 0, Worker 1, Worker 1, Worker 1, Destroy, Destroy, Worker 0, Worker 0, Destroy] 2)) \<and>
   pc (m_threads (after [Worker 0, Worker 0, Worker 0, Worker 1, Worker 1, Worker 1, Destroy, Destroy, Worker 0, Worker 0, Destroy] 2) ! 1) = In_try_pop \<and>
   destroy (after [Worker 0, Worker 0, Worker 0, Worker 1, Worker 1, Worker 1, Destroy, Destroy, Worker 0, Worker 0, Destroy] 2) = None \<and>
   pc (m_threads (after [Worker 0, Worker 0, Worker 0, Worker 1, Worker 1, Worker 1, Destroy, Destroy, Worker 0, Worker 0, Destroy] 2) ! 0) = Returned \<and>
   destroy_actions (history (after [Worker 0, Worker 0, Worker 0, Worker 1, Worker 1, Worker 1, Destroy, Destroy, Worker 0, Worker 0, Destroy] 2)) = [Set_done, Notify_all, Join 0] \<and>
   run [Worker 0, Worker 0, Worker 0, Worker 1, Worker 1, Worker 1, Destroy, Destroy, Worker 0, Worker 0, Destroy, Worker 1, Worker 1, Destroy, Destroy] (constructed 2) = Some (after [Worker 0, Worker 0, Worker 0, Worker 1, Worker 1, Worker 1, Destroy, Destroy, Worker 0, Worker 0, Destroy, Worker 1, Worker 1, Destroy, Destroy] 2) \<and>
   owner (after [Worker 0, Worker 0, Worker 0, Worker 1, Worker 1, Worker 1, Destroy, Destroy, Worker 0, Worker 0, Destroy, Worker 1, Worker 1, Destroy, Destroy] 2) = Destroyed \<and>
   m_done (after [Worker 0, Worker 0, Worker 0, Worker 1, Worker 1, Worker 1, Destroy, Destroy, Worker 0, Worker 0, Destroy, Worker 1, Worker 1, Destroy, Destroy] 2) \<and>
   destroy_actions (history (after [Worker 0, Worker 0, Worker 0, Worker 1, Worker 1, Worker 1, Destroy, Destroy, Worker 0, Worker 0, Destroy, Worker 1, Worker 1, Destroy, Destroy] 2)) = [Set_done, Notify_all, Join 0, Join 1] \<and>
   length (m_threads (after [Worker 0, Worker 0, Worker 0, Worker 1, Worker 1, Worker 1, Destroy, Destroy, Worker 0, Worker 0, Destroy, Worker 1, Worker 1, Destroy, Destroy] 2)) = 2 \<and>
   list_all (\<lambda>th. pc th = Returned \<and> \<not> joinable th) (m_threads (after [Worker 0, Worker 0, Worker 0, Worker 1, Worker 1, Worker 1, Destroy, Destroy, Worker 0, Worker 0, Destroy, Worker 1, Worker 1, Destroy, Destroy] 2))"
proof -
  have c: "ThreadPool True (\<lambda>_. True) 2 = Constructed (constructed 2 :: nat state)"
    by (simp add: ThreadPool_Constructed_iff)
  have b: "run [Worker 0, Worker 0, Worker 0, Worker 1, Worker 1, Worker 1, Destroy] (constructed 2) = Some (after [Worker 0, Worker 0, Worker 0, Worker 1, Worker 1, Worker 1, Destroy] 2)"
    by (simp add: after_def pool_eval replicate_2)
  have j: "run [Worker 0, Worker 0, Worker 0, Worker 1, Worker 1, Worker 1, Destroy, Destroy, Worker 0, Worker 0, Destroy] (constructed 2) = Some (after [Worker 0, Worker 0, Worker 0, Worker 1, Worker 1, Worker 1, Destroy, Destroy, Worker 0, Worker 0, Destroy] 2)"
    by (simp add: after_def pool_eval replicate_2)
  have e: "run [Worker 0, Worker 0, Worker 0, Worker 1, Worker 1, Worker 1, Destroy, Destroy, Worker 0, Worker 0, Destroy, Worker 1, Worker 1, Destroy, Destroy] (constructed 2) = Some (after [Worker 0, Worker 0, Worker 0, Worker 1, Worker 1, Worker 1, Destroy, Destroy, Worker 0, Worker 0, Destroy, Worker 1, Worker 1, Destroy, Destroy] 2)"
    by (simp add: after_def pool_eval replicate_2)
  have oB: "owner (after [Worker 0, Worker 0, Worker 0, Worker 1, Worker 1, Worker 1, Destroy] 2) = Notifying"
    and wB: "list_all is_waiting (m_threads (after [Worker 0, Worker 0, Worker 0, Worker 1, Worker 1, Worker 1, Destroy] 2))"
    by (simp_all add: after_def pool_eval replicate_2)
  have oC: "owner (after [Worker 0, Worker 0, Worker 0, Worker 1, Worker 1, Worker 1, Destroy, Destroy, Worker 0, Worker 0, Destroy] 2) = Joining 1"
    and lC: "(1::nat) < length (m_threads (after [Worker 0, Worker 0, Worker 0, Worker 1, Worker 1, Worker 1, Destroy, Destroy, Worker 0, Worker 0, Destroy] 2))"
    and pC: "pc (m_threads (after [Worker 0, Worker 0, Worker 0, Worker 1, Worker 1, Worker 1, Destroy, Destroy, Worker 0, Worker 0, Destroy] 2) ! 1) = In_try_pop"
    by (simp_all add: after_def pool_eval replicate_2)
  have oE: "owner (after [Worker 0, Worker 0, Worker 0, Worker 1, Worker 1, Worker 1, Destroy, Destroy, Worker 0, Worker 0, Destroy, Worker 1, Worker 1, Destroy, Destroy] 2) = Destroyed"
    by (simp add: after_def pool_eval replicate_2)
  from destroy_sets_flag_wakes_all_joins_all[OF c b] oB
  have tB: "m_done (after [Worker 0, Worker 0, Worker 0, Worker 1, Worker 1, Worker 1, Destroy] 2) \<and>
      destroy_actions (history (after [Worker 0, Worker 0, Worker 0, Worker 1, Worker 1, Worker 1, Destroy] 2)) = [Set_done] \<and>
      \<not> list_ex is_waiting (notify_all (m_threads (after [Worker 0, Worker 0, Worker 0, Worker 1, Worker 1, Worker 1, Destroy] 2)))"
    by auto
  from destroy_sets_flag_wakes_all_joins_all[OF c j] oC lC pC
  have tC: "destroy (after [Worker 0, Worker 0, Worker 0, Worker 1, Worker 1, Worker 1, Destroy, Destroy, Worker 0, Worker 0, Destroy] 2) = None \<and>
      pc (m_threads (after [Worker 0, Worker 0, Worker 0, Worker 1, Worker 1, Worker 1, Destroy, Destroy, Worker 0, Worker 0, Destroy] 2) ! 0) = Returned \<and>
      destroy_actions (history (after [Worker 0, Worker 0, Worker 0, Worker 1, Worker 1, Worker 1, Destroy, Destroy, Worker 0, Worker 0, Destroy] 2)) = [Set_done, Notify_all, Join 0]"
    by simp
  from destroy_sets_flag_wakes_all_joins_all[OF c e] oE
  have tE: "m_done (after [Worker 0, Worker 0, Worker 0, Worker 1, Worker 1, Worker 1, Destroy, Destroy, Worker 0, Worker 0, Destroy, Worker 1, Worker 1, Destroy, Destroy] 2) \<and>
      destroy_actions (history (after [Worker 0, Worker 0, Worker 0, Worker 1, Worker 1, Worker 1, Destroy, Destroy, Worker 0, Worker 0, Destroy, Worker 1, Worker 1, Destroy, Destroy] 2)) = [Set_done, Notify_all, Join 0, Join 1] \<and>
      length (m_threads (after [Worker 0, Worker 0, Worker 0, Worker 1, Worker 1, Worker 1, Destroy, Destroy, Worker 0, Worker 0, Destroy, Worker 1, Worker 1, Destroy, Destroy] 2)) = 2 \<and>
      list_all (\<lambda>th. pc th = Returned \<and> \<not> joinable th) (m_threads (after [Worker 0, Worker 0, Worker 0, Worker 1, Worker 1, Worker 1, Destroy, Destroy, Worker 0, Worker 0, Destroy, Worker 1, Worker 1, Destroy, Destroy] 2))"
    by (simp add: list_all_iff upt_0_2)
  from c b j e oB wB oC lC pC oE tB tC tE show ?thesis by blast
qed

subsection \<open>C9: failures of callables stay inside \<open>run_me\<close>\<close>

text \<open>
  C9.  Whatever a callable throws, of whatever type, \<open>run_me\<close> on a task whose shared state
  is not ready lets nothing propagate and stores the failure in the shared state, where
  \<open>get\<close> on the future rethrows it.  In every state a constructed pool reaches, every
  task in flight is such a task, \<open>std::terminate\<close> has not been called, no worker is in
  its handler and nothing has been printed, a worker has returned only if the flag is set,
  and a worker that holds a task runs it, stores its outcome and is back at its loop guard.
\<close>

theorem task_failures_never_escape_run_me:
  fixes evs :: "('a, 'r) event list" and s s0 s1 :: "'r state"
  shows
  "(pending s t \<longrightarrow> stored_task (m_task t) () = Throws e \<longrightarrow>
      fst (run_me t s) = None \<and>
      future_get (snd (run_me t s)) (get_future t) = Got (Throws e)) \<and>
   (ThreadPool reserve_ok spawn_ok num_threads = Constructed s0 \<longrightarrow> run evs s0 = Some s1 \<longrightarrow>
      \<not> terminated s1 \<and> stdout s1 = [] \<and>
      (\<forall>th \<in> set (m_threads s1). pc th \<noteq> Caught \<and> (pc th = Returned \<longrightarrow> m_done s1)) \<and>
      (\<forall>u \<in> set (in_flight s1). pending s1 u) \<and>
      (\<forall>i u. i < length (m_threads s1) \<longrightarrow> pc (m_threads s1 ! i) = Has_task u \<longrightarrow>
         (\<exists>s2. step (Worker i :: ('a, 'r) event) s1 = Some s2 \<and>
            pc (m_threads s2 ! i) = At_guard \<and> \<not> terminated s2 \<and> stdout s2 = [] \<and>
            future_get s2 (get_future u) = Got (stored_task (m_task u) ()))))"
proof (intro conjI impI)
  assume "pending s t" and "stored_task (m_task t) () = Throws e"
  then show "fst (run_me t s) = None"
    and "future_get (snd (run_me t s)) (get_future t) = Got (Throws e)"
    using run_me_stores[of s t] by simp_all
next
  assume c: "ThreadPool reserve_ok spawn_ok num_threads = Constructed s0"
    and r: "run evs s0 = Some s1"
  then have q: "quiet s1" by (rule quiet_reachable)
  then show "\<not> terminated s1" and "stdout s1 = []"
    and "\<forall>th \<in> set (m_threads s1). pc th \<noteq> Caught \<and> (pc th = Returned \<longrightarrow> m_done s1)"
    and "\<forall>u \<in> set (in_flight s1). pending s1 u"
    by (simp_all add: quiet_def inflight_ok_iff)
  show "\<forall>i u. i < length (m_threads s1) \<longrightarrow> pc (m_threads s1 ! i) = Has_task u \<longrightarrow>
         (\<exists>s2. step (Worker i :: ('a, 'r) event) s1 = Some s2 \<and>
            pc (m_threads s2 ! i) = At_guard \<and> \<not> terminated s2 \<and> stdout s2 = [] \<and>
            future_get s2 (get_future u) = Got (stored_task (m_task u) ()))"
  proof (intro allI impI)
    fix i u
    assume "i < length (m_threads s1)" and "pc (m_threads s1 ! i) = Has_task u"
    with q worker_runs_task_stores[of s1 i u, where ?'a = 'a]
    show "\<exists>s2. step (Worker i :: ('a, 'r) event) s1 = Some s2 \<and>
            pc (m_threads s2 ! i) = At_guard \<and> \<not> terminated s2 \<and> stdout s2 = [] \<and>
            future_get s2 (get_future u) = Got (stored_task (m_task u) ())"
      by blast
  qed
qed

theorem task_failures_never_escape_run_me_witness:
  "pending (after [Submit No_fault throw42 [Obj 3], Worker 0, Worker 0] 1)
     \<lparr>m_task = \<lparr>stored_task = (\<lambda>_. throw42 (std_tuple [Obj 3])), shared = 0\<rparr>\<rparr> \<and>
   throw42 (std_tuple [Obj 3]) = Throws NonStdException \<and>
   fst (run_me \<lparr>m_task = \<lparr>stored_task = (\<lambda>_. throw42 (std_tuple [Obj 3])), shared = 0\<rparr>\<rparr>
     (after [Submit No_fault throw42 [Obj 3], Worker 0, Worker 0] 1)) = None \<and>
   future_get (snd (run_me \<lparr>m_task = \<lparr>stored_task = (\<lambda>_. throw42 (std_tuple [Obj 3])), shared = 0\<rparr>\<rparr>
     (after [Submit No_fault throw42 [Obj 3], Worker 0, Worker 0] 1))) 0 = Got (Throws NonStdException) \<and>
   ThreadPool True (\<lambda>_. True) 1 = Constructed (constructed 1 :: nat state) \<and>
   run [Submit No_fault throw42 [Obj 3], Worker 0, Worker 0] (constructed 1) =
     Some (after [Submit No_fault throw42 [Obj 3], Worker 0, Worker 0] 1) \<and>
   pc (m_threads (after [Submit No_fault throw42 [Obj 3], Worker 0, Worker 0] 1) ! 0) =
     Has_task \<lparr>m_task = \<lparr>stored_task = (\<lambda>_. throw42 (std_tuple [Obj 3])), shared = 0\<rparr>\<rparr> \<and>
   step (Worker 0 :: (nat, nat) event) (after [Submit No_fault throw42 [Obj 3], Worker 0, Worker 0] 1) =
     Some (after [Submit No_fault throw42 [Obj 3], Worker 0, Worker 0, Worker 0] 1) \<and>
   pc (m_threads (after [Submit No_fault throw42 [Obj 3], Worker 0, Worker 0, Worker 0] 1) ! 0) = At_guard \<and>
   \<not> terminated (after [Submit No_fault throw42 [Obj 3], Worker 0, Worker 0, Worker 0] 1) \<and>
   stdout (after [Submit No_fault throw42 [Obj 3], Worker 0, Worker 0, Worker 0] 1) = [] \<and>
   future_get (after [Submit No_fault throw42 [Obj 3], Worker 0, Worker 0, Worker 0] 1) 0 =
     Got (Throws NonStdException)"
  using task_failures_never_escape_run_me[of
      "after [Submit No_fault throw42 [Obj 3], Worker 0, Worker 0] 1"
      "\<lparr>m_task = \<lparr>stored_task = (\<lambda>_. throw42 (std_tuple [Obj 3])), shared = 0\<rparr>\<rparr>" NonStdException
      True "\<lambda>_. True" 1 "constructed 1"
      "[Submit No_fault throw42 [Obj 3], Worker 0, Worker 0]"
      "after [Submit No_fault throw42 [Obj 3], Worker 0, Worker 0] 1"]
  by (simp add: after_def pool_eval inv_eval ThreadPool_Constructed_iff throw42_def)

subsection \<open>C10: a pool of zero threads\<close>

text \<open>
  C10.  The construction with \<open>num_threads = 0\<close> succeeds, whatever the environment, and
  the pool has no thread.  In every state such a pool reaches: it has no thread; the queue
  holds every task ever put in and nothing has been taken out; no future is ready (no task
  has been executed); while the pool object is alive, \<open>submit\<close> with no fault returns the
  future of a task it appends to the queue; and the three steps of the destructor (set
  the flag, notify all, the loop over no thread) are enabled one after the other and
  complete it, with the queue and the futures as they were.
\<close>

theorem zero_thread_pool_runs_nothing:
  fixes evs :: "('a, 'r) event list" and s :: "'r state" and func :: "'a arg list \<Rightarrow> 'r outcome"
  shows
    "(ThreadPool reserve_ok spawn_ok 0 :: 'r construction) = Constructed (constructed 0) \<and>
     m_threads (constructed 0 :: 'r state) = [] \<and>
     (run evs (constructed 0) = Some s \<longrightarrow>
        m_threads s = [] \<and>
        m_queue s = enqueued (history s) \<and> dequeued (history s) = [] \<and>
        (\<forall>h < length (heap s). future_get s h = Not_ready) \<and>
        (owner s = Alive \<longrightarrow>
           (\<exists>t s1. submit No_fault func args s = (Inr (get_future t), s1) \<and>
              step (Submit No_fault func args) s = Some s1 \<and>
              m_queue s1 = m_queue s @ [t] \<and> stored_task (m_task t) () = func (std_tuple args) \<and>
              get_future t < length (heap s1)) \<and>
           (\<exists>s'. run [Destroy, Destroy, Destroy :: ('a, 'r) event] s = Some s' \<and>
              owner s' = Destroyed \<and> m_queue s' = m_queue s \<and> heap s' = heap s)))"
proof -
  have c: "(ThreadPool reserve_ok spawn_ok 0 :: 'r construction) = Constructed (constructed 0)"
    by (simp add: ThreadPool_outcome)
  have "m_threads s = [] \<and>
        m_queue s = enqueued (history s) \<and> dequeued (history s) = [] \<and>
        (\<forall>h < length (heap s). future_get s h = Not_ready) \<and>
        (owner s = Alive \<longrightarrow>
           (\<exists>t s1. submit No_fault func args s = (Inr (get_future t), s1) \<and>
              step (Submit No_fault func args) s = Some s1 \<and>
              m_queue s1 = m_queue s @ [t] \<and> stored_task (m_task t) () = func (std_tuple args) \<and>
              get_future t < length (heap s1)) \<and>
           (\<exists>s'. run [Destroy, Destroy, Destroy :: ('a, 'r) event] s = Some s' \<and>
              owner s' = Destroyed \<and> m_queue s' = m_queue s \<and> heap s' = heap s))"
    if r: "run evs (constructed 0) = Some s"
  proof -
    from r have nw: "no_worker s" by (rule no_worker_run)
    from c r have "fifo s" by (rule fifo_reachable)
    with nw have q: "m_queue s = enqueued (history s)" "dequeued (history s) = []"
      unfolding fifo_def no_worker_def by simp_all
    from nw have fut: "\<forall>h < length (heap s). future_get s h = Not_ready"
      by (simp add: no_worker_def list_all_length future_get_def)
    have sub: "\<exists>t s1. submit No_fault func args s = (Inr (get_future t), s1) \<and>
              step (Submit No_fault func args) s = Some s1 \<and>
              m_queue s1 = m_queue s @ [t] \<and> stored_task (m_task t) () = func (std_tuple args) \<and>
              get_future t < length (heap s1)"
      if "owner s = Alive"
    proof -
      obtain r1 s1 where s1: "submit No_fault func args s = (r1, s1)" by force
      then show ?thesis
      proof (cases rule: submit_elim)
        case (pushed t)
        with s1 nw \<open>owner s = Alive\<close> show ?thesis
          by (auto simp: step_def no_worker_def mutex_free_def)
      qed simp_all
    qed
    from nw destroy_no_worker[of s, where ?'a = 'a] sub q fut show ?thesis
      by (auto simp: no_worker_def)
  qed
  moreover have "m_threads (constructed 0 :: 'r state) = []" by simp
  ultimately show ?thesis using c by blast
qed

theorem zero_thread_pool_runs_nothing_witness:
  "(ThreadPool True (\<lambda>_. True) 0 :: nat construction) = Constructed (constructed 0) \<and>
   run [Submit No_fault square [Obj 3], Submit No_fault boom [Obj 4]] (constructed 0) =
     Some (after [Submit No_fault square [Obj 3], Submit No_fault boom [Obj 4]] 0) \<and>
   owner (after [Submit No_fault square [Obj 3], Submit No_fault boom [Obj 4]] 0) = Alive \<and>
   m_threads (after [Submit No_fault square [Obj 3], Submit No_fault boom [Obj 4]] 0) = [] \<and>
   length (heap (after [Submit No_fault square [Obj 3], Submit No_fault boom [Obj 4]] 0)) = 2 \<and>
   length (m_queue (after [Submit No_fault square [Obj 3], Submit No_fault boom [Obj 4]] 0)) = 2 \<and>
   future_get (after [Submit No_fault square [Obj 3], Submit No_fault boom [Obj 4]] 0) 0 = Not_ready \<and>
   future_get (after [Submit No_fault square [Obj 3], Submit No_fault boom [Obj 4]] 0) 1 = Not_ready \<and>
   step (Worker 0 :: (nat, nat) event) (after [Submit No_fault square [Obj 3], Submit No_fault boom [Obj 4]] 0) = None \<and>
   run [Destroy, Destroy, Destroy :: (nat, nat) event]
     (after [Submit No_fault square [Obj 3], Submit No_fault boom [Obj 4]] 0) =
     Some (after [Submit No_fault square [Obj 3], Submit No_fault boom [Obj 4], Destroy, Destroy, Destroy] 0) \<and>
   owner (after [Submit No_fault square [Obj 3], Submit No_fault boom [Obj 4], Destroy, Destroy, Destroy] 0) =
     Destroyed \<and>
   length (m_queue (after [Submit No_fault square [Obj 3], Submit No_fault boom [Obj 4], Destroy, Destroy, Destroy] 0)) = 2"
  using zero_thread_pool_runs_nothing[of True "\<lambda>_. True"
      "[Submit No_fault square [Obj 3], Submit No_fault boom [Obj 4]]"
      "after [Submit No_fault square [Obj 3], Submit No_fault boom [Obj 4]] 0" square "[Obj 3]"]
  by (simp add: after_def pool_eval)

end
